theory Spec2Isabelle
  imports Complex_Main "HOL-Library.Log_Nat"
begin

section \<open>Shared types\<close>

text \<open>
  The module \<^verbatim>\<open>puddle_world.py\<close> holds a categorical sampler, a table-driven
  environment (\<^verbatim>\<open>DiscreteEnv\<close>) and a grid world (\<^verbatim>\<open>GridWorld\<close>).
  Python exceptions are values of \<open>error\<close>; a function that may raise returns
  \<open>error + 'a\<close>, with \<open>Inl\<close> for the exception. Python integers are \<open>int\<close>.
  Python floats (probabilities, rewards, the noise level and the uniform draws) are
  real numbers. The module compares and copies them; its only float arithmetic is the
  additions of \<^verbatim>\<open>np.cumsum\<close>, which round as IEEE 754 double precision does
  (\<open>float64_add\<close> below). The base classes and the spaces come from the gym library
  and are not modelled, except for the membership test of \<^verbatim>\<open>spaces.Discrete(4)\<close>;
  every random draw is an argument of the function that consumes it.
\<close>

datatype error = AssertionError | ZeroDivisionError | ValueError | KeyError | IndexError

text \<open>
  The fourth component of a step result: \<^verbatim>\<open>None\<close> for the grid world, the
  dictionary \<^verbatim>\<open>{"prob": p}\<close> for the table-driven environment.
\<close>

type_synonym info = "(string \<times> real) list option"

type_synonym step_result = "int \<times> real \<times> bool \<times> info"

section \<open>Double precision addition\<close>

text \<open>
  An IEEE 754 binary64 number is \<open>m * 2\<^sup>e\<close> with an integer \<open>\<bar>m\<bar> < 2\<^sup>5\<^sup>3\<close> and
  \<open>-1074 \<le> e \<le> 971\<close>. The sum of two floats is the exact sum rounded to the nearest
  such number, ties going to the even \<open>m\<close>.

  \<open>round_half_even q\<close> is the integer nearest to \<open>q\<close>, the even one of the two when
  \<open>q\<close> lies halfway.
\<close>

definition round_half_even :: "real \<Rightarrow> int" where
  "round_half_even q =
     (let f = \<lfloor>q\<rfloor>; d = q - of_int f
      in if d < 1 / 2 then f else if 1 / 2 < d then f + 1 else if even f then f else f + 1)"

text \<open>
  The exponent of the binade of \<open>a \<ge> 0\<close>: \<open>\<lfloor>log\<^sub>2 a\<rfloor>\<close>, but never below \<open>-1022\<close>, the
  exponent of the subnormal numbers (\<open>float64_exponent_log\<close> below). It is read off
  the bit length of \<open>\<lfloor>a * 2\<^sup>1\<^sup>0\<^sup>7\<^sup>4\<rfloor>\<close>, which keeps the definition executable.
\<close>

definition float64_exponent :: "real \<Rightarrow> int" where
  "float64_exponent a = max (bitlen \<lfloor>a * 2 ^ 1074\<rfloor> - 1075) (- 1022)"

text \<open>
  Rounding to the nearest double: the spacing of the doubles in the binade of \<open>x\<close> is
  \<open>u = 2\<^sup>e\<^sup>-\<^sup>5\<^sup>2\<close>, and \<open>x\<close> goes to the nearest multiple of \<open>u\<close>. A result of
  magnitude \<open>2\<^sup>1\<^sup>0\<^sup>2\<^sup>4\<close> or more, which the hardware turns into an infinity, stays
  finite here; infinities, NaN and the sign of zero are not modelled. In a cumulative
  sum of numbers that are not negative this changes no comparison with a draw: the
  first partial sum beyond the range exceeds the draw either way.
\<close>

definition float64_round :: "real \<Rightarrow> real" where
  "float64_round x =
     (let u = 2 powi (float64_exponent \<bar>x\<bar> - 52)
      in u * of_int (round_half_even (x / u)))"

definition float64_add :: "real \<Rightarrow> real \<Rightarrow> real" where
  "float64_add x y = float64_round (x + y)"

text \<open>A real number is a double when rounding leaves it as it is.\<close>

definition is_float64 :: "real \<Rightarrow> bool" where
  "is_float64 x = (float64_round x = x)"

section \<open>The categorical sampler\<close>

text \<open>
  \<^verbatim>\<open>np.cumsum\<close> accumulates from left to right in double precision:
  \<open>cs[0] = p[0]\<close>, \<open>cs[i] = cs[i-1] + p[i]\<close>, every sum rounded.
\<close>

fun cumsum_acc :: "real \<Rightarrow> real list \<Rightarrow> real list" where
  "cumsum_acc a [] = []"
| "cumsum_acc a (x # xs) = float64_add a x # cumsum_acc (float64_add a x) xs"

fun cumsum :: "real list \<Rightarrow> real list" where
  "cumsum [] = []"
| "cumsum (x # xs) = x # cumsum_acc x xs"

text \<open>
  \<^verbatim>\<open>ndarray.argmax()\<close>: the index of the first occurrence of the maximum; it
  raises \<^verbatim>\<open>ValueError\<close> on an empty array. \<open>argmax_acc best besti i\<close> scans
  the rest of the array from index \<open>i\<close>, and only a strictly larger entry replaces
  the best one.
\<close>

fun argmax_acc :: "'b::linorder \<Rightarrow> nat \<Rightarrow> nat \<Rightarrow> 'b list \<Rightarrow> nat" where
  "argmax_acc best besti i [] = besti"
| "argmax_acc best besti i (y # ys) =
     (if best < y then argmax_acc y i (Suc i) ys else argmax_acc best besti (Suc i) ys)"

fun argmax :: "'b::linorder list \<Rightarrow> error + nat" where
  "argmax [] = Inl ValueError"
| "argmax (y # ys) = Inr (argmax_acc y 0 1 ys)"

text \<open>
  \<^verbatim>\<open>categorical_sample(prob_n, np_random)\<close>. The argument \<open>draw\<close> is the value
  of \<^verbatim>\<open>np_random.rand()\<close>, a float in \<open>[0, 1)\<close>.
\<close>

definition categorical_sample :: "real list \<Rightarrow> real \<Rightarrow> error + nat" where
  "categorical_sample prob_n draw =
     (let csprob_n = cumsum prob_n
      in argmax (map (\<lambda>c. draw < c) csprob_n))"

section \<open>The table-driven environment\<close>

text \<open>
  \<^verbatim>\<open>P[s][a] == [(probability, nextstate, reward, done), ...]\<close>: a dictionary of
  dictionaries of lists. A missing key raises \<^verbatim>\<open>KeyError\<close>.
\<close>

type_synonym transition = "real \<times> int \<times> real \<times> bool"

record DiscreteEnv =
  P :: "int \<rightharpoonup> (int \<rightharpoonup> transition list)"
  isd :: "real list"
  lastaction :: "int option"
  nS :: int
  nA :: int
  s :: int

definition DiscreteEnv_reset :: "DiscreteEnv \<Rightarrow> real \<Rightarrow> error + (DiscreteEnv \<times> int)" where
  "DiscreteEnv_reset env draw =
     (case categorical_sample (isd env) draw of
        Inl e \<Rightarrow> Inl e
      | Inr i \<Rightarrow>
          (let env' = env\<lparr>s := int i, lastaction := None\<rparr>
           in Inr (env', s env')))"

text \<open>
  The constructor stores its arguments and calls \<^verbatim>\<open>_reset\<close>, which consumes one
  draw. The field \<open>s\<close> does not exist before that call; the record needs a value
  for it, which \<open>DiscreteEnv_reset\<close> overwrites.
\<close>

definition DiscreteEnv_init ::
  "int \<Rightarrow> int \<Rightarrow> (int \<rightharpoonup> (int \<rightharpoonup> transition list)) \<Rightarrow> real list \<Rightarrow> real \<Rightarrow> error + DiscreteEnv" where
  "DiscreteEnv_init nS0 nA0 P0 isd0 draw =
     (case DiscreteEnv_reset \<lparr>P = P0, isd = isd0, lastaction = None, nS = nS0, nA = nA0, s = 0\<rparr> draw of
        Inl e \<Rightarrow> Inl e
      | Inr (env, _) \<Rightarrow> Inr env)"

definition DiscreteEnv_step :: "DiscreteEnv \<Rightarrow> int \<Rightarrow> real \<Rightarrow> error + (DiscreteEnv \<times> step_result)" where
  "DiscreteEnv_step env a draw =
     (case P env (s env) of
        None \<Rightarrow> Inl KeyError
      | Some row \<Rightarrow>
          (case row a of
             None \<Rightarrow> Inl KeyError
           | Some transitions \<Rightarrow>
               (case categorical_sample (map fst transitions) draw of
                  Inl e \<Rightarrow> Inl e
                | Inr i \<Rightarrow>
                    if i < length transitions then
                      (case transitions ! i of
                         (p, s', r, d) \<Rightarrow>
                           Inr (env\<lparr>s := s', lastaction := Some a\<rparr>, (s', r, d, Some [(''prob'', p)])))
                    else Inl IndexError)))"

section \<open>The grid world\<close>

definition UP :: int where "UP = 0"
definition RIGHT :: int where "RIGHT = 1"
definition DOWN :: int where "DOWN = 2"
definition LEFT :: int where "LEFT = 3"

text \<open>
  \<^verbatim>\<open>start_state\<close> is an integer, or a string (such as \<^verbatim>\<open>'random'\<close>) asking for
  a random start.
\<close>

datatype start = IntStart int | StrStart string

record GridWorld =
  n :: int
  noise :: real
  terminal_reward :: real
  border_reward :: real
  bump_reward :: real
  step_reward :: real
  n_states :: int
  terminal_state :: int
  absorbing_state :: int
  done_flag :: bool
  start_state :: start
  state :: int

text \<open>
  \<^verbatim>\<open>spaces.Discrete(4).contains(action)\<close>, of the gym library: the action is an
  integer with \<open>0 \<le> action < 4\<close>.
\<close>

definition action_space_contains :: "int \<Rightarrow> bool" where
  "action_space_contains action = (0 \<le> action \<and> action < 4)"

definition ind2coord :: "GridWorld \<Rightarrow> int \<Rightarrow> error + (int \<times> int)" where
  "ind2coord g index =
     (if \<not> 0 \<le> index then Inl AssertionError
      else if n g = 0 then Inl ZeroDivisionError
      else (let col = index div n g; row = index mod n g in Inr (row, col)))"

definition coord2ind :: "GridWorld \<Rightarrow> int \<times> int \<Rightarrow> error + int" where
  "coord2ind g coord =
     (case coord of
        (row, col) \<Rightarrow>
          if \<not> row < n g then Inl AssertionError
          else if \<not> col < n g then Inl AssertionError
          else Inr (col * n g + row))"

definition at_border :: "GridWorld \<Rightarrow> error + bool" where
  "at_border g =
     (case ind2coord g (state g) of
        Inl e \<Rightarrow> Inl e
      | Inr (row, col) \<Rightarrow> Inr (row = 0 \<or> row = n g - 1 \<or> col = 0 \<or> col = n g - 1))"

text \<open>
  \<^verbatim>\<open>_get_reward(new_state=None)\<close>. The border test reads \<^verbatim>\<open>self.state\<close>, which
  \<^verbatim>\<open>_step\<close> has not updated yet; \<^verbatim>\<open>and\<close> short-circuits, so \<open>at_border\<close> runs
  only when \<open>border_reward\<close> is not zero.
\<close>

definition get_reward :: "GridWorld \<Rightarrow> int option \<Rightarrow> error + real" where
  "get_reward g new_state =
     (if done_flag g then Inr (terminal_reward g)
      else
        (case (if border_reward g \<noteq> 0
               then (case at_border g of
                       Inl e \<Rightarrow> Inl e
                     | Inr b \<Rightarrow> Inr (if b then border_reward g else step_reward g))
               else Inr (step_reward g)) of
           Inl e \<Rightarrow> Inl e
         | Inr reward \<Rightarrow>
             Inr (if bump_reward g \<noteq> 0 \<and> Some (state g) = new_state
                  then bump_reward g else reward)))"

text \<open>
  \<^verbatim>\<open>_reset()\<close>. The argument \<open>rnd\<close> is the value of
  \<^verbatim>\<open>np.random.randint(self.n_states - 1)\<close>, which is drawn only for a string
  \<open>start_state\<close> and raises \<^verbatim>\<open>ValueError\<close> when its bound is not positive.
\<close>

definition GridWorld_reset :: "GridWorld \<Rightarrow> int \<Rightarrow> error + (GridWorld \<times> int)" where
  "GridWorld_reset g rnd =
     (case start_state g of
        IntStart k \<Rightarrow>
          (let g' = g\<lparr>state := k, done_flag := False\<rparr> in Inr (g', state g'))
      | StrStart str \<Rightarrow>
          if n_states g - 1 \<le> 0 then Inl ValueError
          else (let g' = g\<lparr>state := rnd, done_flag := False\<rparr> in Inr (g', state g')))"

text \<open>
  \<^verbatim>\<open>__init__(n=10, noise=0.1, terminal_reward=1.0, border_reward=0.0,
  step_reward=0.0, start_state=0, bump_reward=-0.5, terminal_state_offset=11)\<close>.
  The field \<open>state\<close> does not exist before the call of \<^verbatim>\<open>_reset\<close>; the record
  needs a value for it, which \<open>GridWorld_reset\<close> overwrites.
\<close>

definition GridWorld_init ::
  "int \<Rightarrow> real \<Rightarrow> real \<Rightarrow> real \<Rightarrow> real \<Rightarrow> start \<Rightarrow> real \<Rightarrow> int \<Rightarrow> int \<Rightarrow> error + GridWorld" where
  "GridWorld_init n0 noise0 terminal_reward0 border_reward0 step_reward0 start_state0
       bump_reward0 terminal_state_offset rnd =
     (let n_states0 = n0 ^ 2 + 1 in
      case GridWorld_reset
             \<lparr>n = n0, noise = noise0, terminal_reward = terminal_reward0,
              border_reward = border_reward0, bump_reward = bump_reward0,
              step_reward = step_reward0, n_states = n_states0,
              terminal_state = n_states0 - 2 - terminal_state_offset,
              absorbing_state = n_states0 - 1, done_flag = False,
              start_state = start_state0, state = 0\<rparr> rnd of
        Inl e \<Rightarrow> Inl e
      | Inr (g, _) \<Rightarrow> Inr g)"

text \<open>
  The clamped move of \<^verbatim>\<open>_step\<close>: an \<^verbatim>\<open>if/elif\<close> chain with no \<^verbatim>\<open>else\<close>, so
  any other action leaves the coordinate as it is.
\<close>

definition move :: "GridWorld \<Rightarrow> int \<Rightarrow> int \<times> int \<Rightarrow> int \<times> int" where
  "move g action coord =
     (case coord of
        (row, col) \<Rightarrow>
          if action = UP then (max (row - 1) 0, col)
          else if action = DOWN then (min (row + 1) (n g - 1), col)
          else if action = RIGHT then (row, min (col + 1) (n g - 1))
          else if action = LEFT then (row, max (col - 1) 0)
          else (row, col))"

text \<open>
  \<^verbatim>\<open>_step(action)\<close>. The argument \<open>u\<close> is the value of \<^verbatim>\<open>np.random.rand()\<close>
  compared with the noise level; \<open>sampled\<close> is the value of
  \<^verbatim>\<open>self.action_space.sample()\<close>, used only when \<open>u < noise\<close>.
\<close>

definition GridWorld_step :: "GridWorld \<Rightarrow> int \<Rightarrow> real \<Rightarrow> int \<Rightarrow> error + (GridWorld \<times> step_result)" where
  "GridWorld_step g action u sampled =
     (if \<not> action_space_contains action then Inl AssertionError
      else if state g = terminal_state g then
        (let g1 = g\<lparr>state := absorbing_state g, done_flag := True\<rparr>
         in case get_reward g1 None of
              Inl e \<Rightarrow> Inl e
            | Inr reward \<Rightarrow> Inr (g1, (state g1, reward, done_flag g1, None)))
      else
        (case ind2coord g (state g) of
           Inl e \<Rightarrow> Inl e
         | Inr coord \<Rightarrow>
             (let action' = (if u < noise g then sampled else action)
              in case coord2ind g (move g action' coord) of
                   Inl e \<Rightarrow> Inl e
                 | Inr new_state \<Rightarrow>
                     (case get_reward g (Some new_state) of
                        Inl e \<Rightarrow> Inl e
                      | Inr reward \<Rightarrow>
                          (let g' = g\<lparr>state := new_state\<rparr>
                           in Inr (g', (state g', reward, done_flag g', None)))))))"

section \<open>Runs and fixtures\<close>

text \<open>
  A caller resets the environment and then calls \<^verbatim>\<open>step\<close> until it reports
  \<^verbatim>\<open>done\<close>. \<open>episode g inputs\<close> lists the results of such a run from \<open>g\<close>:
  each input is an action with the two draws its step may consume, and the run ends
  with the inputs, with the first exception, or with the first result whose
  \<^verbatim>\<open>done\<close> is true.
\<close>

fun episode :: "GridWorld \<Rightarrow> (int \<times> real \<times> int) list \<Rightarrow> step_result list" where
  "episode g [] = []"
| "episode g ((a, u, smp) # rest) =
     (case GridWorld_step g a u smp of
        Inl e \<Rightarrow> []
      | Inr (g', res) \<Rightarrow> res # (if done_flag g' then [] else episode g' rest))"

text \<open>
  A step result carries the terminal reward when its \<^verbatim>\<open>done\<close> component is true:
  \<open>get_reward\<close> returns \<open>terminal_reward\<close> exactly when the flag is set.
\<close>

definition granted :: "step_result \<Rightarrow> bool" where
  "granted res = (case res of (ns, r, d, io) \<Rightarrow> d)"

text \<open>
  The grid built by \<^verbatim>\<open>GridWorld(n=3, noise=0, start_state=0, terminal_state_offset=1)\<close>,
  the other parameters at their defaults.
\<close>

definition grid3 :: GridWorld where
  "grid3 =
     \<lparr>n = 3, noise = 0, terminal_reward = 1, border_reward = 0, bump_reward = - (1 / 2),
      step_reward = 0, n_states = 10, terminal_state = 7, absorbing_state = 9,
      done_flag = False, start_state = IntStart 0, state = 0\<rparr>"

text \<open>
  The environment built by
  \<^verbatim>\<open>DiscreteEnv(2, 1, {0:{0:[(1.0,1,5.0,True)]}, 1:{0:[(1.0,1,0.0,True)]}}, [1.0,0.0])\<close>.
\<close>

definition engine2 :: DiscreteEnv where
  "engine2 =
     \<lparr>P = [0 \<mapsto> [0 \<mapsto> [(1, 1, 5, True)]], 1 \<mapsto> [0 \<mapsto> [(1, 1, 0, True)]]],
      isd = [1, 0], lastaction = None, nS = 2, nA = 1, s = 0\<rparr>"

section \<open>Coordinates\<close>

lemma div_lt_self_mult:
  assumes "0 < (k::int)" "i < k * k"
  shows "i div k < k"
proof (rule ccontr)
  assume "\<not> i div k < k"
  then have "k \<le> i div k" by simp
  then have "k * k \<le> k * (i div k)"
    using assms(1) by (simp add: mult_left_mono)
  moreover have "k * (i div k) \<le> i"
    using assms(1) mult_div_mod_eq[of k i] pos_mod_sign[of k i] by linarith
  ultimately show False using assms(2) by linarith
qed

text \<open>
  The converse round trip: a coordinate of the grid is encoded and decoded to itself, so
  the two conversions are inverse bijections between \<open>[0, n) \<times> [0, n)\<close> and
  \<open>[0, n\<^sup>2)\<close>.
\<close>

lemma ind2coord_coord2ind:
  assumes "0 \<le> row" "row < n g" "0 \<le> col" "col < n g"
  shows "coord2ind g (row, col) = Inr (col * n g + row) \<and>
         ind2coord g (col * n g + row) = Inr (row, col)"
  using assms by (simp add: ind2coord_def coord2ind_def)

text \<open>
  Claim C7. For every grid size \<open>n \<ge> 1\<close> and every index \<open>i\<close> with
  \<open>0 \<le> i < n\<^sup>2\<close>, \<open>ind2coord\<close> returns \<open>row = i mod n\<close> and \<open>col = i div n\<close>,
  \<open>coord2ind\<close> returns \<open>col * n + row\<close> on that coordinate, and decoding followed
  by encoding returns \<open>i\<close>; neither conversion raises.
\<close>

theorem coord2ind_ind2coord:
  assumes "0 < n g" "0 \<le> i" "i < n g ^ 2"
  shows "ind2coord g i = Inr (i mod n g, i div n g) \<and>
         coord2ind g (i mod n g, i div n g) = Inr (i div n g * n g + i mod n g) \<and>
         (case ind2coord g i of Inl e \<Rightarrow> Inl e | Inr coord \<Rightarrow> coord2ind g coord) = Inr i"
  using assms div_lt_self_mult[of "n g" i]
  by (simp add: ind2coord_def coord2ind_def power2_eq_square)

theorem coord2ind_ind2coord_witness:
  "0 < n grid3 \<and> (0::int) \<le> 5 \<and> 5 < n grid3 ^ 2 \<and>
   ind2coord grid3 5 = Inr (2, 1) \<and>
   (case ind2coord grid3 5 of Inl e \<Rightarrow> Inl e | Inr coord \<Rightarrow> coord2ind grid3 coord) = Inr 5"
proof -
  have h: "0 < n grid3" "(0::int) \<le> 5" "5 < n grid3 ^ 2"
    by (simp_all add: grid3_def)
  have m: "5 mod n grid3 = 2" "5 div n grid3 = 1" "n grid3 = 3"
    by (simp_all add: grid3_def)
  from coord2ind_ind2coord[OF h] show ?thesis
    using h m by simp
qed

section \<open>One step of the grid world\<close>

lemma get_reward_not_done:
  "\<not> done_flag g \<Longrightarrow> get_reward g ns = Inr r \<Longrightarrow>
     r = (if bump_reward g \<noteq> 0 \<and> ns = Some (state g) then bump_reward g
          else if border_reward g \<noteq> 0 \<and> at_border g = Inr True then border_reward g
          else step_reward g)"
  by (auto simp add: get_reward_def split: if_splits sum.splits)

lemma step_not_terminal:
  assumes "state g \<noteq> terminal_state g" "GridWorld_step g a u smp = Inr (g', ns, r, d, io)"
  shows "g' = g\<lparr>state := ns\<rparr> \<and> d = done_flag g \<and> io = None \<and>
     get_reward g (Some ns) = Inr r \<and> 0 \<le> state g \<and> n g \<noteq> 0 \<and>
     coord2ind g (move g (if u < noise g then smp else a) (state g mod n g, state g div n g)) =
       Inr ns"
  using assms
  by (auto simp add: GridWorld_step_def ind2coord_def Let_def split: if_splits sum.splits)

lemma step_terminal:
  "state g = terminal_state g \<Longrightarrow> action_space_contains a \<Longrightarrow>
     GridWorld_step g a u smp =
       Inr (g\<lparr>state := absorbing_state g, done_flag := True\<rparr>,
            (absorbing_state g, terminal_reward g, True, None))"
  by (simp add: GridWorld_step_def get_reward_def)

lemma step_reward_formula:
  assumes "\<not> done_flag g" "state g \<noteq> terminal_state g"
    "GridWorld_step g a u smp = Inr (g', ns, r, d, io)"
  shows "r = (if bump_reward g \<noteq> 0 \<and> ns = state g then bump_reward g
              else if border_reward g \<noteq> 0 \<and>
                      (state g mod n g = 0 \<or> state g mod n g = n g - 1 \<or>
                       state g div n g = 0 \<or> state g div n g = n g - 1)
                   then border_reward g
              else step_reward g)"
proof -
  from step_not_terminal[OF assms(2,3)]
  have gr: "get_reward g (Some ns) = Inr r" and st: "0 \<le> state g" "n g \<noteq> 0"
    by simp_all
  have ab: "at_border g =
      Inr (state g mod n g = 0 \<or> state g mod n g = n g - 1 \<or>
           state g div n g = 0 \<or> state g div n g = n g - 1)"
    using st by (simp add: at_border_def ind2coord_def)
  show ?thesis
    using get_reward_not_done[OF assms(1) gr] ab by auto
qed

text \<open>
  A step from a cell of the grid, with a valid action (and a valid replacement when the
  noise draw asks for one), returns: the partial statements below are not empty.
\<close>

lemma step_returns:
  assumes "0 < n g" "0 \<le> state g" "state g < n g ^ 2" "action_space_contains a"
    "u < noise g \<longrightarrow> action_space_contains smp"
  shows "\<exists>g' ns r d io. GridWorld_step g a u smp = Inr (g', ns, r, d, io)"
proof (cases "state g = terminal_state g")
  case True
  from step_terminal[OF True assms(4), of u smp] show ?thesis by auto
next
  case False
  define act where "act = (if u < noise g then smp else a)"
  define rw where "rw = state g mod n g"
  define cl where "cl = state g div n g"
  have dec: "ind2coord g (state g) = Inr (rw, cl)"
    using assms(1,2) by (simp add: ind2coord_def rw_def cl_def)
  have col: "cl < n g"
    using div_lt_self_mult[of "n g" "state g"] assms(1,3)
    by (simp add: power2_eq_square cl_def)
  have row: "rw < n g"
    using assms(1) by (simp add: rw_def)
  obtain row' col' where mv: "move g act (rw, cl) = (row', col')"
    by (cases "move g act (rw, cl)") auto
  have "row' < n g \<and> col' < n g"
    using mv row col assms(1) by (auto simp add: move_def split: if_splits)
  then have enc: "coord2ind g (row', col') = Inr (col' * n g + row')"
    by (simp add: coord2ind_def)
  have ab: "\<exists>b. at_border g = Inr b"
    using dec by (simp add: at_border_def)
  then have "\<exists>r. get_reward g (Some (col' * n g + row')) = Inr r"
    by (auto simp add: get_reward_def)
  then show ?thesis
    using False assms(4) dec mv enc
    by (auto simp add: GridWorld_step_def act_def)
qed

section \<open>Rewards\<close>

text \<open>
  Claim C5. A step taken while the episode is not done, from a state other than the
  terminal state, returns \<open>step_reward\<close> by default; \<open>border_reward\<close> when
  \<open>border_reward \<noteq> 0\<close> and the state before the move has its row or its column equal
  to \<open>0\<close> or \<open>n - 1\<close>; and \<open>bump_reward\<close> when \<open>bump_reward \<noteq> 0\<close> and the new state
  equals the state before the move, the bump reward taking precedence over the border
  reward. (\<open>step_returns\<close> shows that such a step returns from every cell of the grid.)
\<close>

theorem reward_precedence:
  assumes "\<not> done_flag g" "state g \<noteq> terminal_state g"
    "GridWorld_step g a u smp = Inr (g', ns, r, d, io)"
  shows "r = (if bump_reward g \<noteq> 0 \<and> ns = state g then bump_reward g
              else if border_reward g \<noteq> 0 \<and>
                      (state g mod n g = 0 \<or> state g mod n g = n g - 1 \<or>
                       state g div n g = 0 \<or> state g div n g = n g - 1)
                   then border_reward g
              else step_reward g)"
  using step_reward_formula[OF assms] .

text \<open>
  The witness has both rewards switched on: moving \<open>LEFT\<close> from the corner \<open>0\<close> of
  the 3 by 3 grid is clamped, and the bump reward \<open>-1/2\<close> wins over the border reward
  \<open>1/4\<close>.
\<close>

theorem reward_precedence_witness:
  "\<not> done_flag (grid3\<lparr>border_reward := 1 / 4\<rparr>) \<and>
   state (grid3\<lparr>border_reward := 1 / 4\<rparr>) \<noteq> terminal_state (grid3\<lparr>border_reward := 1 / 4\<rparr>) \<and>
   GridWorld_step (grid3\<lparr>border_reward := 1 / 4\<rparr>) LEFT (1 / 2) 0 =
     Inr (grid3\<lparr>border_reward := 1 / 4\<rparr>, (0, - (1 / 2), False, None)) \<and>
   - (1 / 2) =
     (if bump_reward (grid3\<lparr>border_reward := 1 / 4\<rparr>) \<noteq> 0 \<and>
         0 = state (grid3\<lparr>border_reward := 1 / 4\<rparr>)
      then bump_reward (grid3\<lparr>border_reward := 1 / 4\<rparr>)
      else if border_reward (grid3\<lparr>border_reward := 1 / 4\<rparr>) \<noteq> 0 \<and>
              (state (grid3\<lparr>border_reward := 1 / 4\<rparr>) mod n (grid3\<lparr>border_reward := 1 / 4\<rparr>) = 0 \<or>
               state (grid3\<lparr>border_reward := 1 / 4\<rparr>) mod n (grid3\<lparr>border_reward := 1 / 4\<rparr>) =
                 n (grid3\<lparr>border_reward := 1 / 4\<rparr>) - 1 \<or>
               state (grid3\<lparr>border_reward := 1 / 4\<rparr>) div n (grid3\<lparr>border_reward := 1 / 4\<rparr>) = 0 \<or>
               state (grid3\<lparr>border_reward := 1 / 4\<rparr>) div n (grid3\<lparr>border_reward := 1 / 4\<rparr>) =
                 n (grid3\<lparr>border_reward := 1 / 4\<rparr>) - 1)
           then border_reward (grid3\<lparr>border_reward := 1 / 4\<rparr>)
      else step_reward (grid3\<lparr>border_reward := 1 / 4\<rparr>))"
proof -
  have h1: "\<not> done_flag (grid3\<lparr>border_reward := 1 / 4\<rparr>)"
    by (simp add: grid3_def)
  have h2: "state (grid3\<lparr>border_reward := 1 / 4\<rparr>) \<noteq> terminal_state (grid3\<lparr>border_reward := 1 / 4\<rparr>)"
    by (simp add: grid3_def)
  have h3: "GridWorld_step (grid3\<lparr>border_reward := 1 / 4\<rparr>) LEFT (1 / 2) 0 =
     Inr (grid3\<lparr>border_reward := 1 / 4\<rparr>, (0, - (1 / 2), False, None))"
    by (simp add: grid3_def GridWorld_step_def action_space_contains_def ind2coord_def
          coord2ind_def move_def get_reward_def at_border_def UP_def DOWN_def RIGHT_def LEFT_def)
  from reward_precedence[OF h1 h2 h3] h1 h2 h3 show ?thesis by blast
qed

section \<open>The terminal step\<close>

lemma step_done_iff:
  assumes "\<not> done_flag g" "GridWorld_step g a u smp = Inr (g', ns, r, d, io)"
  shows "d = (state g = terminal_state g) \<and> done_flag g' = d \<and>
         terminal_reward g' = terminal_reward g \<and> absorbing_state g' = absorbing_state g \<and>
         (d \<longrightarrow> ns = absorbing_state g \<and> r = terminal_reward g \<and> io = None)"
proof (cases "state g = terminal_state g")
  case True
  then show ?thesis using assms
    by (auto simp add: GridWorld_step_def get_reward_def split: if_splits)
next
  case False
  from step_not_terminal[OF False assms(2)] assms(1) False show ?thesis by simp
qed

lemma episode_grants:
  "\<not> done_flag g \<Longrightarrow>
     length (filter granted (episode g inputs)) \<le> 1 \<and>
     (\<forall>res \<in> set (episode g inputs).
        granted res \<longrightarrow> res = (absorbing_state g, terminal_reward g, True, None))"
proof (induction inputs arbitrary: g)
  case Nil
  then show ?case by simp
next
  case (Cons x rest)
  obtain a u smp where x: "x = (a, u, smp)" by (cases x) auto
  show ?case
  proof (cases "GridWorld_step g a u smp")
    case (Inl e)
    then show ?thesis using x by simp
  next
    case (Inr y)
    obtain g' ns r d io where y: "y = (g', ns, r, d, io)" by (cases y) auto
    from step_done_iff[OF Cons.prems Inr[unfolded y]]
    have props: "done_flag g' = d" "terminal_reward g' = terminal_reward g"
      "absorbing_state g' = absorbing_state g"
      "d \<longrightarrow> ns = absorbing_state g \<and> r = terminal_reward g \<and> io = None"
      by simp_all
    show ?thesis
    proof (cases d)
      case True
      then show ?thesis using x Inr y props by (simp add: granted_def)
    next
      case False
      then have nd: "\<not> done_flag g'" using props by simp
      from Cons.IH[OF nd] show ?thesis
        using x Inr y props False by (simp add: granted_def)
    qed
  qed
qed

text \<open>
  A run of the 3 by 3 grid that reaches the terminal cell \<open>7\<close> and leaves it: the
  arrival at \<open>7\<close> pays the step reward, the departure pays the terminal reward.
\<close>

lemma episode_grid3:
  "episode grid3 [(RIGHT, 1 / 2, 0), (RIGHT, 1 / 2, 0), (DOWN, 1 / 2, 0), (UP, 1 / 2, 0), (UP, 1 / 2, 0)] =
     [(3, 0, False, None), (6, 0, False, None), (7, 0, False, None), (9, 1, True, None)]"
  by (simp add: grid3_def GridWorld_step_def action_space_contains_def ind2coord_def
        coord2ind_def move_def get_reward_def at_border_def UP_def DOWN_def RIGHT_def LEFT_def)

text \<open>
  Claim C4. Whenever the current state is the terminal state, a step with any valid
  action moves to the absorbing state, sets \<open>done\<close> and returns
  \<open>(absorbing_state, terminal_reward, True, None)\<close>. The terminal reward is granted on
  that departure and not on arrival: in an episode that is not done, a step reports
  \<open>done\<close> exactly when it starts in the terminal state, a step from any other state
  pays one of the three ordinary rewards (also when it arrives in the terminal state),
  and a run from a state that is not done up to its first \<open>done\<close> holds at most one
  result with \<open>done\<close> set, which is \<open>(absorbing_state, terminal_reward, True, None)\<close>,
  and exactly one when it reaches \<open>done\<close>.
\<close>

theorem terminal_reward_on_departure:
  "(state g = terminal_state g \<and> action_space_contains a \<longrightarrow>
      GridWorld_step g a u smp =
        Inr (g\<lparr>state := absorbing_state g, done_flag := True\<rparr>,
             (absorbing_state g, terminal_reward g, True, None))) \<and>
   (\<not> done_flag g \<and> GridWorld_step g a u smp = Inr (g', ns, r, d, io) \<longrightarrow>
      d = (state g = terminal_state g) \<and> done_flag g' = d) \<and>
   (\<not> done_flag g \<and> state g \<noteq> terminal_state g \<and>
    GridWorld_step g a u smp = Inr (g', ns, r, d, io) \<longrightarrow>
      \<not> d \<and> \<not> done_flag g' \<and> (r = step_reward g \<or> r = border_reward g \<or> r = bump_reward g)) \<and>
   (\<not> done_flag g \<longrightarrow>
      length (filter granted (episode g inputs)) \<le> 1 \<and>
      (\<forall>res \<in> set (episode g inputs).
         granted res \<longrightarrow> res = (absorbing_state g, terminal_reward g, True, None))) \<and>
   (\<not> done_flag g \<and> (\<exists>res \<in> set (episode g inputs). granted res) \<longrightarrow>
      length (filter granted (episode g inputs)) = 1)"
proof (intro conjI impI)
  assume "state g = terminal_state g \<and> action_space_contains a"
  then show "GridWorld_step g a u smp =
        Inr (g\<lparr>state := absorbing_state g, done_flag := True\<rparr>,
             (absorbing_state g, terminal_reward g, True, None))"
    using step_terminal[of g a u smp] by simp
next
  assume h: "\<not> done_flag g \<and> GridWorld_step g a u smp = Inr (g', ns, r, d, io)"
  then show "d = (state g = terminal_state g)" and "done_flag g' = d"
    using step_done_iff[of g a u smp g' ns r d io] by simp_all
next
  assume h: "\<not> done_flag g \<and> state g \<noteq> terminal_state g \<and>
    GridWorld_step g a u smp = Inr (g', ns, r, d, io)"
  then show "\<not> d" and "\<not> done_flag g'"
    using step_done_iff[of g a u smp g' ns r d io] by simp_all
  from h step_reward_formula[of g a u smp g' ns r d io]
  show "r = step_reward g \<or> r = border_reward g \<or> r = bump_reward g"
    by (auto split: if_splits)
next
  assume h: "\<not> done_flag g"
  from episode_grants[OF h, of inputs]
  show "length (filter granted (episode g inputs)) \<le> 1"
    and "\<forall>res \<in> set (episode g inputs).
         granted res \<longrightarrow> res = (absorbing_state g, terminal_reward g, True, None)"
    by simp_all
next
  assume h: "\<not> done_flag g \<and> (\<exists>res \<in> set (episode g inputs). granted res)"
  then have "filter granted (episode g inputs) \<noteq> []"
    by (simp add: filter_empty_conv)
  then have "1 \<le> length (filter granted (episode g inputs))"
    by (cases "filter granted (episode g inputs)") simp_all
  moreover have "length (filter granted (episode g inputs)) \<le> 1"
    using h episode_grants[of g inputs] by simp
  ultimately show "length (filter granted (episode g inputs)) = 1"
    by linarith
qed

theorem terminal_reward_on_departure_witness:
  "state (grid3\<lparr>state := 7\<rparr>) = terminal_state (grid3\<lparr>state := 7\<rparr>) \<and>
   action_space_contains LEFT \<and>
   \<not> done_flag (grid3\<lparr>state := 7\<rparr>) \<and>
   GridWorld_step (grid3\<lparr>state := 7\<rparr>) LEFT (1 / 2) 0 =
     Inr (grid3\<lparr>state := 9, done_flag := True\<rparr>, (9, 1, True, None)) \<and>
   \<not> done_flag (grid3\<lparr>state := 6\<rparr>) \<and>
   state (grid3\<lparr>state := 6\<rparr>) \<noteq> terminal_state (grid3\<lparr>state := 6\<rparr>) \<and>
   GridWorld_step (grid3\<lparr>state := 6\<rparr>) DOWN (1 / 2) 0 =
     Inr (grid3\<lparr>state := 7\<rparr>, (7, 0, False, None)) \<and>
   \<not> done_flag (grid3\<lparr>state := 7\<rparr>) \<and>
   (0 = step_reward (grid3\<lparr>state := 6\<rparr>) \<or> 0 = border_reward (grid3\<lparr>state := 6\<rparr>) \<or>
    0 = bump_reward (grid3\<lparr>state := 6\<rparr>)) \<and>
   (9, 1, True, None) \<in> set (episode (grid3\<lparr>state := 7\<rparr>) [(LEFT, 1 / 2, 0), (LEFT, 1 / 2, 0)]) \<and>
   length (filter granted (episode (grid3\<lparr>state := 7\<rparr>) [(LEFT, 1 / 2, 0), (LEFT, 1 / 2, 0)])) = 1"
proof -
  have h: "state (grid3\<lparr>state := 7\<rparr>) = terminal_state (grid3\<lparr>state := 7\<rparr>)"
    "action_space_contains LEFT" "\<not> done_flag (grid3\<lparr>state := 7\<rparr>)"
    by (simp_all add: grid3_def action_space_contains_def LEFT_def)
  have f: "absorbing_state (grid3\<lparr>state := 7\<rparr>) = 9" "terminal_reward (grid3\<lparr>state := 7\<rparr>) = 1"
    "grid3\<lparr>state := 7\<rparr>\<lparr>state := 9, done_flag := True\<rparr> = grid3\<lparr>state := 9, done_flag := True\<rparr>"
    by (simp_all add: grid3_def)
  note t = terminal_reward_on_departure
         [of "grid3\<lparr>state := 7\<rparr>" LEFT "1 / 2" 0 "grid3\<lparr>state := 7\<rparr>" 0 0 False None
             "[(LEFT, 1 / 2, 0), (LEFT, 1 / 2, 0)]"]
  from t h have step: "GridWorld_step (grid3\<lparr>state := 7\<rparr>) LEFT (1 / 2) 0 =
        Inr (grid3\<lparr>state := 7\<rparr>\<lparr>state := absorbing_state (grid3\<lparr>state := 7\<rparr>), done_flag := True\<rparr>,
             (absorbing_state (grid3\<lparr>state := 7\<rparr>), terminal_reward (grid3\<lparr>state := 7\<rparr>), True, None))"
    by blast
  from step have step': "GridWorld_step (grid3\<lparr>state := 7\<rparr>) LEFT (1 / 2) 0 =
     Inr (grid3\<lparr>state := 9, done_flag := True\<rparr>, (9, 1, True, None))"
    by (simp only: f)
  have mem: "(9, 1, True, None) \<in> set (episode (grid3\<lparr>state := 7\<rparr>) [(LEFT, 1 / 2, 0), (LEFT, 1 / 2, 0)])"
    by (simp add: step')
  have gr: "granted (9, 1, True, None)"
    by (simp add: granted_def)
  from mem gr
  have ex: "\<exists>res \<in> set (episode (grid3\<lparr>state := 7\<rparr>) [(LEFT, 1 / 2, 0), (LEFT, 1 / 2, 0)]). granted res"
    by blast
  from t h ex
  have e: "length (filter granted (episode (grid3\<lparr>state := 7\<rparr>) [(LEFT, 1 / 2, 0), (LEFT, 1 / 2, 0)])) = 1"
    by blast
  have k: "\<not> done_flag (grid3\<lparr>state := 6\<rparr>)"
    "state (grid3\<lparr>state := 6\<rparr>) \<noteq> terminal_state (grid3\<lparr>state := 6\<rparr>)"
    by (simp_all add: grid3_def)
  have arrive: "GridWorld_step (grid3\<lparr>state := 6\<rparr>) DOWN (1 / 2) 0 =
     Inr (grid3\<lparr>state := 7\<rparr>, (7, 0, False, None))"
    by (simp add: grid3_def GridWorld_step_def action_space_contains_def ind2coord_def
          coord2ind_def move_def get_reward_def at_border_def UP_def DOWN_def RIGHT_def LEFT_def)
  note t' = terminal_reward_on_departure
         [of "grid3\<lparr>state := 6\<rparr>" DOWN "1 / 2" 0 "grid3\<lparr>state := 7\<rparr>" 7 0 False None "[]"]
  from t' k arrive
  have ord: "0 = step_reward (grid3\<lparr>state := 6\<rparr>) \<or> 0 = border_reward (grid3\<lparr>state := 6\<rparr>) \<or>
    0 = bump_reward (grid3\<lparr>state := 6\<rparr>)"
    by blast
  from h step' k arrive ord mem e show ?thesis by blast
qed

section \<open>Construction\<close>

lemma GridWorld_init_fields:
  "GridWorld_init k nz tr br sr st bu off rnd = Inr g \<Longrightarrow>
     n_states g = k ^ 2 + 1 \<and> terminal_state g = k ^ 2 - 1 - off \<and> absorbing_state g = k ^ 2"
  by (auto simp add: GridWorld_init_def GridWorld_reset_def Let_def split: start.splits if_splits)

text \<open>
  Claim C3, as the constructor computes it. For \<open>n = 3\<close>, \<open>noise = 0\<close>,
  \<open>start_state = 0\<close> and \<open>terminal_state_offset = 1\<close> the terminal state is
  \<open>n_states - 2 - 1 = 7\<close>, which is what the general formula
  \<open>n\<^sup>2 - 1 - terminal_state_offset\<close> gives (not \<open>6\<close>), the absorbing state is \<open>9\<close>,
  \<open>reset()\<close> returns \<open>0\<close>, and \<open>step(RIGHT)\<close> from state \<open>0\<close> returns the state
  \<open>coord2ind(0, 1) = 3\<close> with the reward \<open>step_reward = 0\<close>.
\<close>

theorem grid3_scenario:
  "GridWorld_init 3 0 1 0 0 (IntStart 0) (- (1 / 2)) 1 rnd = Inr grid3 \<and>
   terminal_state grid3 = 7 \<and>
   terminal_state grid3 = 3 ^ 2 - 1 - 1 \<and>
   absorbing_state grid3 = 9 \<and>
   (GridWorld_init k nz tr br sr st bu off rnd' = Inr g \<longrightarrow> terminal_state g = k ^ 2 - 1 - off) \<and>
   GridWorld_reset grid3 rnd = Inr (grid3, 0) \<and>
   ind2coord grid3 0 = Inr (0, 0) \<and>
   coord2ind grid3 (0, 1) = Inr 3 \<and>
   step_reward grid3 = 0 \<and>
   (0 \<le> u \<longrightarrow>
      GridWorld_step grid3 RIGHT u smp = Inr (grid3\<lparr>state := 3\<rparr>, (3, step_reward grid3, False, None)))"
proof -
  have gen: "GridWorld_init k nz tr br sr st bu off rnd' = Inr g \<longrightarrow> terminal_state g = k ^ 2 - 1 - off"
    using GridWorld_init_fields[of k nz tr br sr st bu off rnd' g] by simp
  have rest: "GridWorld_init 3 0 1 0 0 (IntStart 0) (- (1 / 2)) 1 rnd = Inr grid3 \<and>
   terminal_state grid3 = 7 \<and>
   terminal_state grid3 = 3 ^ 2 - 1 - 1 \<and>
   absorbing_state grid3 = 9 \<and>
   GridWorld_reset grid3 rnd = Inr (grid3, 0) \<and>
   ind2coord grid3 0 = Inr (0, 0) \<and>
   coord2ind grid3 (0, 1) = Inr 3 \<and>
   step_reward grid3 = 0 \<and>
   (0 \<le> u \<longrightarrow>
      GridWorld_step grid3 RIGHT u smp = Inr (grid3\<lparr>state := 3\<rparr>, (3, step_reward grid3, False, None)))"
    by (simp add: GridWorld_init_def GridWorld_reset_def grid3_def GridWorld_step_def
          action_space_contains_def ind2coord_def coord2ind_def move_def get_reward_def
          at_border_def UP_def DOWN_def RIGHT_def LEFT_def)
  from gen rest show ?thesis by blast
qed

theorem grid3_scenario_witness:
  "(0::real) \<le> 1 / 2 \<and>
   GridWorld_init 3 0 1 0 0 (IntStart 0) (- (1 / 2)) 1 0 = Inr grid3 \<and>
   terminal_state grid3 = 7 \<and>
   GridWorld_reset grid3 0 = Inr (grid3, 0) \<and>
   GridWorld_step grid3 RIGHT (1 / 2) 0 = Inr (grid3\<lparr>state := 3\<rparr>, (3, step_reward grid3, False, None))"
proof -
  have h: "(0::real) \<le> 1 / 2" by simp
  note t = grid3_scenario[of 0 3 0 1 0 0 "IntStart 0" "- (1 / 2)" 1 0 grid3 "1 / 2" 0]
  from t h show ?thesis by blast
qed

theorem grid3_terminal_state_not_6:
  "GridWorld_init 3 0 1 0 0 (IntStart 0) (- (1 / 2)) 1 0 = Inr grid3 \<and> terminal_state grid3 \<noteq> 6"
  by (simp add: GridWorld_init_def GridWorld_reset_def grid3_def)

section \<open>Assertions\<close>

text \<open>
  Claim C6, as the code checks its inputs. \<open>_step\<close> raises \<^verbatim>\<open>AssertionError\<close> for
  an action outside \<open>{UP, RIGHT, DOWN, LEFT}\<close>. \<open>ind2coord\<close> asserts only that the
  index is not negative (the upper bound is commented out in the source): it raises
  \<^verbatim>\<open>AssertionError\<close> exactly for a negative index and decodes every other index,
  however large, when \<open>n \<noteq> 0\<close>. \<open>coord2ind\<close> asserts only \<open>row < n\<close> and
  \<open>col < n\<close>: it raises exactly when one of them fails and encodes every other
  coordinate, also a negative one.
\<close>

theorem input_assertions:
  "(action_space_contains a = (a = UP \<or> a = RIGHT \<or> a = DOWN \<or> a = LEFT)) \<and>
   (\<not> action_space_contains a \<longrightarrow> GridWorld_step g a u smp = Inl AssertionError) \<and>
   (ind2coord g i = Inl AssertionError \<longleftrightarrow> i < 0) \<and>
   (0 \<le> i \<and> n g \<noteq> 0 \<longrightarrow> ind2coord g i = Inr (i mod n g, i div n g)) \<and>
   (coord2ind g (row, col) = Inl AssertionError \<longleftrightarrow> n g \<le> row \<or> n g \<le> col) \<and>
   (row < n g \<and> col < n g \<longrightarrow> coord2ind g (row, col) = Inr (col * n g + row))"
  by (auto simp add: action_space_contains_def GridWorld_step_def ind2coord_def coord2ind_def
        UP_def DOWN_def RIGHT_def LEFT_def)

theorem input_assertions_witness:
  "\<not> action_space_contains 4 \<and>
   GridWorld_step grid3 4 (1 / 2) 0 = Inl AssertionError \<and>
   ind2coord grid3 (- 1) = Inl AssertionError \<and>
   (0::int) \<le> 12 \<and> n grid3 \<noteq> 0 \<and>
   ind2coord grid3 12 = Inr (12 mod n grid3, 12 div n grid3) \<and>
   coord2ind grid3 (3, 0) = Inl AssertionError \<and>
   - 2 < n grid3 \<and> 1 < n grid3 \<and>
   coord2ind grid3 (- 2, 1) = Inr (1 * n grid3 + - 2)"
proof -
  have h: "\<not> action_space_contains 4" "(0::int) \<le> 12" "n grid3 \<noteq> 0" "- 2 < n grid3" "1 < n grid3"
    "(- 1 :: int) < 0" "n grid3 \<le> 3"
    by (simp_all add: action_space_contains_def grid3_def)
  note t1 = input_assertions[of 4 grid3 "1 / 2" 0 "- 1" 3 0]
  note t2 = input_assertions[of 4 grid3 "1 / 2" 0 12 "- 2" 1]
  from t1 t2 h show ?thesis by blast
qed

theorem out_of_range_accepted:
  "ind2coord grid3 10 = Inr (1, 3) \<and> coord2ind grid3 (- 1, 1) = Inr 2"
  by (simp add: grid3_def ind2coord_def coord2ind_def)

section \<open>Steps from the absorbing state\<close>

text \<open>
  Claim C10. For \<open>n \<ge> 1\<close> the absorbing state \<open>n\<^sup>2\<close> decodes to row \<open>0\<close> and column
  \<open>n\<close>, a column outside \<open>[0, n)\<close>. With \<open>noise = 0\<close>, a step from the absorbing
  state (when it is not also the terminal state) with \<open>LEFT\<close> or \<open>RIGHT\<close> returns
  the state \<open>(n - 1) * n\<close>, the cell of the grid at row \<open>0\<close> and column \<open>n - 1\<close>;
  with \<open>UP\<close> or \<open>DOWN\<close> the column stays \<open>n\<close>, \<open>coord2ind\<close> fails its assertion
  \<open>col < n\<close>, and the step raises \<^verbatim>\<open>AssertionError\<close> instead of returning.
\<close>

theorem step_from_absorbing_state:
  assumes "0 < n g" "absorbing_state g = n g ^ 2" "state g = absorbing_state g"
    "state g \<noteq> terminal_state g" "noise g = 0" "0 \<le> u"
  shows "ind2coord g (absorbing_state g) = Inr (0, n g) \<and>
    (a = LEFT \<or> a = RIGHT \<longrightarrow>
       GridWorld_step g a u smp =
         Inr (g\<lparr>state := (n g - 1) * n g\<rparr>,
              ((n g - 1) * n g,
               (if done_flag g then terminal_reward g
                else if border_reward g \<noteq> 0 then border_reward g else step_reward g),
               done_flag g, None)) \<and>
       ind2coord g ((n g - 1) * n g) = Inr (0, n g - 1) \<and>
       0 \<le> (n g - 1) * n g \<and> (n g - 1) * n g < n g ^ 2) \<and>
    (a = UP \<or> a = DOWN \<longrightarrow>
       snd (move g a (0, n g)) = n g \<and>
       coord2ind g (move g a (0, n g)) = Inl AssertionError \<and>
       GridWorld_step g a u smp = Inl AssertionError)"
proof -
  have dec: "ind2coord g (state g) = Inr (0, n g)"
    using assms(1,2,3) by (simp add: ind2coord_def power2_eq_square)
  have lr: "a = LEFT \<or> a = RIGHT \<Longrightarrow> move g a (0, n g) = (0, n g - 1)"
    using assms(1) by (auto simp add: move_def UP_def DOWN_def RIGHT_def LEFT_def)
  have ud: "a = UP \<or> a = DOWN \<Longrightarrow>
      snd (move g a (0, n g)) = n g \<and> fst (move g a (0, n g)) < n g"
    using assms(1) by (auto simp add: move_def UP_def DOWN_def RIGHT_def LEFT_def)
  have valid: "a = LEFT \<or> a = RIGHT \<Longrightarrow> action_space_contains a"
    and valid': "a = UP \<or> a = DOWN \<Longrightarrow> action_space_contains a"
    by (auto simp add: action_space_contains_def UP_def DOWN_def RIGHT_def LEFT_def)
  have ne: "(n g - 1) * n g \<noteq> state g"
    using assms(1,2,3) by (simp add: power2_eq_square algebra_simps)
  have ab: "at_border g = Inr True"
    using dec by (simp add: at_border_def)
  have rew: "get_reward g (Some ((n g - 1) * n g)) =
     Inr (if done_flag g then terminal_reward g
          else if border_reward g \<noteq> 0 then border_reward g else step_reward g)"
    using ne ab by (auto simp add: get_reward_def)
  have c2i: "coord2ind g (0, n g - 1) = Inr ((n g - 1) * n g)"
    using assms(1) by (simp add: coord2ind_def)
  have p1: "a = LEFT \<or> a = RIGHT \<Longrightarrow> GridWorld_step g a u smp =
         Inr (g\<lparr>state := (n g - 1) * n g\<rparr>,
              ((n g - 1) * n g,
               (if done_flag g then terminal_reward g
                else if border_reward g \<noteq> 0 then border_reward g else step_reward g),
               done_flag g, None))"
    using valid assms(4,5,6) dec lr rew c2i by (simp add: GridWorld_step_def)
  have p2: "ind2coord g ((n g - 1) * n g) = Inr (0, n g - 1)"
    using assms(1) by (simp add: ind2coord_def)
  have p3: "0 \<le> (n g - 1) * n g \<and> (n g - 1) * n g < n g ^ 2"
    using assms(1) by (simp add: power2_eq_square algebra_simps)
  have p4: "a = UP \<or> a = DOWN \<Longrightarrow> coord2ind g (move g a (0, n g)) = Inl AssertionError"
    using ud by (cases "move g a (0, n g)") (auto simp add: coord2ind_def)
  have p5: "a = UP \<or> a = DOWN \<Longrightarrow> GridWorld_step g a u smp = Inl AssertionError"
    using valid' assms(4,5,6) dec p4 by (simp add: GridWorld_step_def)
  show ?thesis using dec assms(3) p1 p2 p3 p4 p5 ud by simp
qed

theorem step_from_absorbing_state_witness:
  "ind2coord (grid3\<lparr>state := 9, done_flag := True\<rparr>) 9 = Inr (0, 3) \<and>
   GridWorld_step (grid3\<lparr>state := 9, done_flag := True\<rparr>) LEFT (1 / 2) 0 =
     Inr (grid3\<lparr>state := 6, done_flag := True\<rparr>, (6, 1, True, None)) \<and>
   GridWorld_step (grid3\<lparr>state := 9, done_flag := True\<rparr>) DOWN (1 / 2) 0 = Inl AssertionError"
proof -
  define ga where "ga = grid3\<lparr>state := 9, done_flag := True\<rparr>"
  have h: "0 < n ga" "absorbing_state ga = n ga ^ 2" "state ga = absorbing_state ga"
    "state ga \<noteq> terminal_state ga" "noise ga = 0" "(0::real) \<le> 1 / 2"
    by (simp_all add: ga_def grid3_def)
  have f: "n ga = 3" "absorbing_state ga = 9" "done_flag ga" "terminal_reward ga = 1"
    "ga\<lparr>state := 6\<rparr> = grid3\<lparr>state := 6, done_flag := True\<rparr>"
    by (simp_all add: ga_def grid3_def)
  from step_from_absorbing_state[OF h, of LEFT 0]
  have l: "ind2coord ga 9 = Inr (0, 3)"
    "GridWorld_step ga LEFT (1 / 2) 0 = Inr (grid3\<lparr>state := 6, done_flag := True\<rparr>, (6, 1, True, None))"
    by (simp_all add: f)
  from step_from_absorbing_state[OF h, of DOWN 0]
  have d: "GridWorld_step ga DOWN (1 / 2) 0 = Inl AssertionError"
    by simp
  from l d show ?thesis unfolding ga_def by blast
qed

text \<open>
  Claim C1 fails on the code. In the 3 by 3 grid, the step from the terminal state \<open>7\<close>
  reaches the absorbing state \<open>9\<close> and sets \<open>done\<close>; the next step with \<open>RIGHT\<close>
  leaves the absorbing state for the cell \<open>6\<close>, and the next step with \<open>UP\<close> raises
  \<^verbatim>\<open>AssertionError\<close>.
\<close>

theorem absorbing_state_is_left:
  "GridWorld_step (grid3\<lparr>state := 7\<rparr>) RIGHT (1 / 2) 0 =
      Inr (grid3\<lparr>state := 9, done_flag := True\<rparr>, (9, 1, True, None)) \<and>
   GridWorld_step (grid3\<lparr>state := 9, done_flag := True\<rparr>) RIGHT (1 / 2) 0 =
      Inr (grid3\<lparr>state := 6, done_flag := True\<rparr>, (6, 1, True, None)) \<and>
   GridWorld_step (grid3\<lparr>state := 9, done_flag := True\<rparr>) UP (1 / 2) 0 = Inl AssertionError"
  by (simp add: grid3_def GridWorld_step_def action_space_contains_def ind2coord_def
        coord2ind_def move_def get_reward_def at_border_def UP_def DOWN_def RIGHT_def LEFT_def)

section \<open>Rounding to double precision\<close>

lemma powi_times_power:
  assumes "0 \<le> k + int m"
  shows "(2::real) powi k * 2 ^ m = 2 ^ nat (k + int m)"
proof -
  have "(2::real) powi k * 2 ^ m = 2 powi k * 2 powi (int m)"
    by simp
  also have "\<dots> = 2 powi (k + int m)"
    by (simp add: power_int_add)
  also have "\<dots> = 2 ^ nat (k + int m)"
    using assms by (simp add: power_int_def)
  finally show ?thesis .
qed

lemma bitlen_floor_scaled:
  fixes a :: real
  assumes "2 powi k \<le> a" "a < 2 powi (k + 1)" "0 \<le> k + int m"
  shows "bitlen \<lfloor>a * 2 ^ m\<rfloor> = k + int m + 1"
proof -
  define N where "N = \<lfloor>a * 2 ^ m\<rfloor>"
  define j where "j = nat (k + int m)"
  have p1: "(2::real) powi k * 2 ^ m = 2 ^ j"
    unfolding j_def using assms(3) by (rule powi_times_power)
  have "0 \<le> (k + 1) + int m" using assms(3) by simp
  then have "(2::real) powi (k + 1) * 2 ^ m = 2 ^ nat ((k + 1) + int m)"
    by (rule powi_times_power)
  moreover have "nat ((k + 1) + int m) = Suc j"
    unfolding j_def using assms(3) by simp
  ultimately have p2: "(2::real) powi (k + 1) * 2 ^ m = 2 ^ Suc j"
    by simp
  have "2 powi k * 2 ^ m \<le> a * 2 ^ m"
    using assms(1) by (simp add: mult_right_mono)
  then have "(2::real) ^ j \<le> a * 2 ^ m"
    by (simp only: p1)
  then have "real_of_int (2 ^ j) \<le> a * 2 ^ m"
    by simp
  then have lo: "2 ^ j \<le> N"
    unfolding N_def by (simp only: le_floor_iff)
  have "a * 2 ^ m < 2 powi (k + 1) * 2 ^ m"
    using assms(2) by (simp add: mult_strict_right_mono)
  then have "a * 2 ^ m < (2::real) ^ Suc j"
    by (simp only: p2)
  then have "a * 2 ^ m < real_of_int (2 ^ Suc j)"
    by simp
  then have hi: "N < 2 ^ Suc j"
    unfolding N_def by (simp only: floor_less_iff)
  have "0 \<le> int (Suc j) \<and> N < 2 ^ nat (int (Suc j))"
    using hi by (simp only: nat_int of_nat_0_le_iff simp_thms)
  then have "bitlen N \<le> int (Suc j)"
    by (simp only: bitlen_le_iff_power)
  moreover have "2 ^ (nat (int (Suc j)) - 1) \<le> N"
    using lo by (simp only: nat_int diff_Suc_1)
  then have "int (Suc j) \<le> bitlen N"
    by (simp only: bitlen_ge_iff_power simp_thms)
  ultimately have "bitlen N = int (Suc j)" by simp
  then show ?thesis
    unfolding N_def j_def using assms(3) by simp
qed

lemma float64_exponent_binade:
  assumes "2 powi k \<le> a" "a < 2 powi (k + 1)" "- 1022 \<le> k"
  shows "float64_exponent a = k"
proof -
  have "0 \<le> k + int 1074" using assms(3) by simp
  from bitlen_floor_scaled[OF assms(1,2) this]
  have "bitlen \<lfloor>a * 2 ^ 1074\<rfloor> = k + int 1074 + 1" .
  then have "float64_exponent a = max (k + int 1074 + 1 - 1075) (- 1022)"
    unfolding float64_exponent_def by (rule arg_cong2[where f = "\<lambda>b c. max (b - 1075) c"]) (rule refl)
  also have "\<dots> = k" using assms(3) by simp
  finally show ?thesis .
qed

lemma float64_round_binade:
  assumes "2 powi k \<le> \<bar>x\<bar>" "\<bar>x\<bar> < 2 powi (k + 1)" "- 1022 \<le> k"
  shows "float64_round x = 2 powi (k - 52) * of_int (round_half_even (x / 2 powi (k - 52)))"
  unfolding float64_round_def Let_def float64_exponent_binade[OF assms] ..

lemma round_half_even_bounds: "\<lfloor>q\<rfloor> \<le> round_half_even q \<and> round_half_even q \<le> \<lfloor>q\<rfloor> + 1"
  by (simp add: round_half_even_def Let_def)

lemma round_half_even_of_int: "round_half_even (of_int m) = m"
  by (simp add: round_half_even_def Let_def)

lemma round_half_even_ge: "of_int m \<le> q \<Longrightarrow> m \<le> round_half_even q"
proof -
  assume "of_int m \<le> q"
  then have "m \<le> \<lfloor>q\<rfloor>" by (simp add: le_floor_iff)
  with round_half_even_bounds[of q] show ?thesis by simp
qed

lemma round_half_even_le: "q \<le> of_int m \<Longrightarrow> round_half_even q \<le> m"
proof -
  assume h: "q \<le> of_int m"
  show ?thesis
  proof (cases "q = of_int m")
    case True
    then show ?thesis by (simp add: round_half_even_of_int)
  next
    case False
    with h have "q < of_int m" by simp
    then have "\<lfloor>q\<rfloor> < m" by (simp add: floor_less_iff)
    with round_half_even_bounds[of q] show ?thesis by simp
  qed
qed

lemma float64_exponent_mono:
  assumes "a \<le> y"
  shows "float64_exponent a \<le> float64_exponent y"
proof -
  have "a * 2 ^ 1074 \<le> y * 2 ^ 1074"
    using assms by (rule mult_right_mono) simp
  then have "\<lfloor>a * 2 ^ 1074\<rfloor> \<le> \<lfloor>y * 2 ^ 1074\<rfloor>"
    by (rule floor_mono)
  then have "bitlen \<lfloor>a * 2 ^ 1074\<rfloor> \<le> bitlen \<lfloor>y * 2 ^ 1074\<rfloor>"
    unfolding bitlen_def by (simp only: floorlog_mono nat_mono of_nat_le_iff)
  then show ?thesis
    unfolding float64_exponent_def by (simp only: max.mono diff_right_mono order_refl)
qed

lemma float64_exponent_ge: "- 1022 \<le> float64_exponent y"
  unfolding float64_exponent_def by (rule max.cobounded2)

lemma scaled_upper:
  fixes y :: real
  assumes "0 \<le> y"
  shows "y < 2 powi (bitlen \<lfloor>y * 2 ^ m\<rfloor> - int m)"
proof -
  define N where "N = \<lfloor>y * 2 ^ m\<rfloor>"
  define b where "b = bitlen N"
  have b0: "0 \<le> b" unfolding b_def by (rule bitlen_nonneg)
  have N0: "0 \<le> N" unfolding N_def using assms by simp
  have "N < 2 ^ nat b"
  proof (cases "N = 0")
    case True
    then show ?thesis by simp
  next
    case False
    with N0 have "0 < N" by simp
    from bitlen_bounds[OF this] show ?thesis unfolding b_def by simp
  qed
  then have "N + 1 \<le> 2 ^ nat b" by simp
  then have "real_of_int (N + 1) \<le> real_of_int (2 ^ nat b)"
    by (simp only: of_int_le_iff)
  then have le: "real_of_int N + 1 \<le> 2 ^ nat b" by simp
  have "y * 2 ^ m < real_of_int N + 1"
    unfolding N_def by linarith
  with le have lt: "y * 2 ^ m < 2 ^ nat b" by simp
  have "0 \<le> (b - int m) + int m" using b0 by simp
  from powi_times_power[OF this]
  have "(2::real) powi (b - int m) * 2 ^ m = 2 ^ nat b" by simp
  with lt have "y * 2 ^ m < 2 powi (b - int m) * 2 ^ m" by simp
  then have "y < 2 powi (b - int m)"
    by (simp only: mult_less_cancel_right_pos zero_less_power zero_less_numeral)
  then show ?thesis unfolding b_def N_def .
qed

lemma scaled_lower:
  fixes y :: real
  assumes "0 < bitlen \<lfloor>y * 2 ^ m\<rfloor>"
  shows "2 powi (bitlen \<lfloor>y * 2 ^ m\<rfloor> - 1 - int m) \<le> y"
proof -
  define N where "N = \<lfloor>y * 2 ^ m\<rfloor>"
  define b where "b = bitlen N"
  have b0: "0 < b" unfolding b_def N_def by (rule assms)
  have "\<not> N \<le> 0"
    using b0 bitlen_eq_zero_iff[of N] unfolding b_def by simp
  then have "0 < N" by simp
  from bitlen_bounds[OF this] have "2 ^ nat (b - 1) \<le> N" unfolding b_def by simp
  then have "real_of_int (2 ^ nat (b - 1)) \<le> real_of_int N"
    by (simp only: of_int_le_iff)
  then have "(2::real) ^ nat (b - 1) \<le> real_of_int N" by simp
  moreover have "real_of_int N \<le> y * 2 ^ m"
    unfolding N_def by (rule of_int_floor_le)
  ultimately have le: "(2::real) ^ nat (b - 1) \<le> y * 2 ^ m" by linarith
  have "0 \<le> (b - 1 - int m) + int m" using b0 by simp
  from powi_times_power[OF this]
  have "(2::real) powi (b - 1 - int m) * 2 ^ m = 2 ^ nat (b - 1)" by simp
  with le have "2 powi (b - 1 - int m) * 2 ^ m \<le> y * 2 ^ m" by simp
  then have "2 powi (b - 1 - int m) \<le> y"
    by (simp only: mult_le_cancel_right_pos zero_less_power zero_less_numeral)
  then show ?thesis unfolding b_def N_def .
qed

lemma float64_exponent_upper:
  assumes "0 \<le> y"
  shows "y < 2 powi (float64_exponent y + 1)"
proof -
  define b where "b = bitlen \<lfloor>y * 2 ^ 1074\<rfloor>"
  from scaled_upper[OF assms, of 1074]
  have "y < 2 powi (b - int 1074)" unfolding b_def .
  moreover have "b - int 1074 \<le> float64_exponent y + 1"
    unfolding float64_exponent_def b_def by simp
  then have "(2::real) powi (b - int 1074) \<le> 2 powi (float64_exponent y + 1)"
    by (intro power_int_increasing) simp_all
  ultimately show ?thesis by simp
qed

lemma float64_exponent_lower:
  assumes "- 1022 < float64_exponent y"
  shows "2 powi (float64_exponent y) \<le> y"
proof -
  define b where "b = bitlen \<lfloor>y * 2 ^ 1074\<rfloor>"
  have e: "float64_exponent y = max (b - 1075) (- 1022)"
    unfolding float64_exponent_def b_def ..
  with assms have eq: "float64_exponent y = b - 1075" and "0 < b" by simp_all
  then have "0 < bitlen \<lfloor>y * 2 ^ 1074\<rfloor>" unfolding b_def by simp
  from scaled_lower[OF this]
  have "2 powi (b - 1 - int 1074) \<le> y" unfolding b_def .
  moreover have "b - 1 - int 1074 = float64_exponent y"
    using eq by simp
  ultimately show ?thesis by simp
qed

lemma float64_exponent_subnormal:
  assumes "0 \<le> r" "r < 2 powi (- 1021)"
  shows "float64_exponent r = - 1022"
proof (rule ccontr)
  assume "float64_exponent r \<noteq> - 1022"
  with float64_exponent_ge[of r] have gt: "- 1022 < float64_exponent r" by simp
  then have "- 1021 \<le> float64_exponent r" by simp
  then have "(2::real) powi (- 1021) \<le> 2 powi (float64_exponent r)"
    by (intro power_int_increasing) simp_all
  with float64_exponent_lower[OF gt] assms(2) show False by simp
qed

lemma ulp_times_power:
  "(2::real) powi (e - 52) * 2 ^ 52 = 2 powi e"
  "(2::real) powi (e - 52) * 2 ^ 53 = 2 powi (e + 1)"
proof -
  have "(2::real) powi (e - 52 + 52) = 2 powi (e - 52) * 2 powi 52"
    by (rule power_int_add) simp
  then show "(2::real) powi (e - 52) * 2 ^ 52 = 2 powi e" by simp
  have "(2::real) powi (e - 52 + 53) = 2 powi (e - 52) * 2 powi 53"
    by (rule power_int_add) simp
  then show "(2::real) powi (e - 52) * 2 ^ 53 = 2 powi (e + 1)" by (simp add: add.commute)
qed

lemma float64_round_ge:
  assumes "is_float64 a" "0 \<le> a" "a \<le> y"
  shows "a \<le> float64_round y"
proof -
  define Ea where "Ea = float64_exponent a"
  define Ey where "Ey = float64_exponent y"
  define u where "u = (2::real) powi (Ey - 52)"
  have y0: "0 \<le> y" using assms(2,3) by simp
  have u0: "0 < u" unfolding u_def by simp
  have ry: "float64_round y = u * of_int (round_half_even (y / u))"
    unfolding float64_round_def Let_def u_def Ey_def using y0 by simp
  have le: "Ea \<le> Ey" unfolding Ea_def Ey_def using assms(3) by (rule float64_exponent_mono)
  show ?thesis
  proof (cases "Ea = Ey")
    case True
    define na where "na = round_half_even (a / u)"
    have "float64_round a = u * of_int na"
      unfolding float64_round_def Let_def u_def na_def using assms(2) True Ea_def Ey_def by simp
    with assms(1) have a: "a = u * of_int na" by (simp add: is_float64_def)
    then have "of_int na = a / u" using u0 by simp
    also have "\<dots> \<le> y / u" using assms(3) u0 by (simp add: divide_right_mono)
    finally have "na \<le> round_half_even (y / u)" by (rule round_half_even_ge)
    then have "u * of_int na \<le> u * of_int (round_half_even (y / u))"
      using u0 by simp
    with a ry show ?thesis by simp
  next
    case False
    with le have lt: "Ea < Ey" by simp
    have "- 1022 \<le> Ea" unfolding Ea_def by (rule float64_exponent_ge)
    with lt have "- 1022 < float64_exponent y" unfolding Ey_def by simp
    from float64_exponent_lower[OF this] have lo: "2 powi Ey \<le> y" unfolding Ey_def .
    have "a < 2 powi (Ea + 1)"
      unfolding Ea_def using assms(2) by (rule float64_exponent_upper)
    moreover have "(2::real) powi (Ea + 1) \<le> 2 powi Ey"
      using lt by (intro power_int_increasing) simp_all
    ultimately have a: "a < 2 powi Ey" by simp
    have p: "u * 2 ^ 52 = 2 powi Ey" unfolding u_def by (rule ulp_times_power)
    have "real_of_int (2 ^ 52) = 2 powi Ey / u"
      using p u0 by (simp add: field_simps)
    also have "\<dots> \<le> y / u" using lo u0 by (simp add: divide_right_mono)
    finally have "2 ^ 52 \<le> round_half_even (y / u)" by (rule round_half_even_ge)
    then have "real_of_int (2 ^ 52) \<le> real_of_int (round_half_even (y / u))"
      by (simp only: of_int_le_iff)
    then have "u * real_of_int (2 ^ 52) \<le> u * real_of_int (round_half_even (y / u))"
      using u0 by (simp only: mult_le_cancel_left_pos)
    then have "2 powi Ey \<le> float64_round y"
      using p ry by simp
    with a show ?thesis by simp
  qed
qed

lemma float64_round_nonneg:
  assumes "0 \<le> z"
  shows "0 \<le> float64_round z"
proof -
  define u where "u = (2::real) powi (float64_exponent \<bar>z\<bar> - 52)"
  have u0: "0 < u" unfolding u_def by simp
  have "real_of_int 0 \<le> z / u" using assms u0 by simp
  then have "0 \<le> round_half_even (z / u)" by (rule round_half_even_ge)
  then have "0 \<le> u * of_int (round_half_even (z / u))" using u0 by simp
  then show ?thesis unfolding float64_round_def Let_def u_def .
qed

lemma float64_round_idem:
  assumes "0 \<le> z"
  shows "is_float64 (float64_round z)"
proof -
  define E where "E = float64_exponent z"
  define u where "u = (2::real) powi (E - 52)"
  define m where "m = round_half_even (z / u)"
  define r where "r = u * real_of_int m"
  have u0: "0 < u" unfolding u_def by simp
  have rz: "float64_round z = r"
    unfolding float64_round_def Let_def r_def m_def u_def E_def using assms by simp
  have r0: "0 \<le> r" using float64_round_nonneg[OF assms] rz by simp
  have p52: "u * 2 ^ 52 = 2 powi E" and p53: "u * 2 ^ 53 = 2 powi (E + 1)"
    unfolding u_def by (rule ulp_times_power)+
  have "z < 2 powi (E + 1)"
    unfolding E_def using assms by (rule float64_exponent_upper)
  then have "z < u * 2 ^ 53" by (simp only: p53)
  then have "z / u < 2 ^ 53" using u0 by (simp add: field_simps)
  then have "z / u \<le> real_of_int (2 ^ 53)" by simp
  then have m53: "m \<le> 2 ^ 53" unfolding m_def by (rule round_half_even_le)
  have exp_r: "float64_round r = r"
  proof (cases "m = 2 ^ 53")
    case True
    then have r: "r = 2 powi (E + 1)" unfolding r_def using p53 by simp
    have "- 1022 \<le> E" unfolding E_def by (rule float64_exponent_ge)
    then have k: "- 1022 \<le> E + 1" by simp
    have b1: "2 powi (E + 1) \<le> \<bar>r\<bar>" using r by simp
    have "(2::real) powi (E + 1) < 2 powi (E + 1 + 1)"
      by (intro power_int_strict_increasing) simp_all
    then have b2: "\<bar>r\<bar> < 2 powi (E + 1 + 1)" using r by simp
    have q: "(2::real) powi (E + 1 - 52) * 2 ^ 52 = 2 powi (E + 1)"
      by (rule ulp_times_power)
    have u1: "0 < (2::real) powi (E + 1 - 52)" by simp
    have "r / 2 powi (E + 1 - 52) = real_of_int (2 ^ 52)"
      using q u1 r by (simp add: field_simps)
    then have "round_half_even (r / 2 powi (E + 1 - 52)) = 2 ^ 52"
      by (simp only: round_half_even_of_int)
    with float64_round_binade[OF b1 b2 k] q r show ?thesis by simp
  next
    case False
    with m53 have m_lt: "m < 2 ^ 53" by simp
    then have "real_of_int m < real_of_int (2 ^ 53)" by (simp only: of_int_less_iff)
    then have "u * real_of_int m < u * real_of_int (2 ^ 53)"
      using u0 by (simp only: mult_less_cancel_left_pos)
    then have r_hi: "r < 2 powi (E + 1)" unfolding r_def using p53 by simp
    have expo: "float64_exponent r = E"
    proof (cases "E = - 1022")
      case True
      with r_hi have "r < 2 powi (- 1021)" by simp
      from float64_exponent_subnormal[OF r0 this] True show ?thesis by simp
    next
      case False
      with float64_exponent_ge[of z] have gt: "- 1022 < float64_exponent z"
        unfolding E_def by simp
      from float64_exponent_lower[OF gt] have "2 powi E \<le> z" unfolding E_def .
      then have "u * 2 ^ 52 \<le> z" by (simp only: p52)
      then have "2 ^ 52 \<le> z / u" using u0 by (simp add: field_simps)
      then have "real_of_int (2 ^ 52) \<le> z / u" by simp
      then have "2 ^ 52 \<le> m" unfolding m_def by (rule round_half_even_ge)
      then have "real_of_int (2 ^ 52) \<le> real_of_int m" by (simp only: of_int_le_iff)
      then have "u * real_of_int (2 ^ 52) \<le> u * real_of_int m"
        using u0 by (simp only: mult_le_cancel_left_pos)
      then have r_lo: "2 powi E \<le> r" unfolding r_def using p52 by simp
      have "- 1022 \<le> E" using gt unfolding E_def by simp
      from float64_exponent_binade[OF r_lo r_hi this] show ?thesis .
    qed
    have "r / u = real_of_int m" unfolding r_def using u0 by simp
    then have "round_half_even (r / u) = m" by (simp only: round_half_even_of_int)
    then show ?thesis
      unfolding float64_round_def Let_def using r0 expo u_def r_def by simp
  qed
  show ?thesis unfolding is_float64_def rz by (rule exp_r)
qed

text \<open>The exponent is the floor of the binary logarithm, cut off at \<open>-1022\<close>.\<close>

lemma float64_exponent_log:
  assumes "0 < a"
  shows "float64_exponent a = max \<lfloor>log 2 a\<rfloor> (- 1022)"
proof -
  define k where "k = \<lfloor>log 2 a\<rfloor>"
  have "2 powr real_of_int k \<le> a \<and> a < 2 powr (real_of_int k + 1)"
    using floor_log_eq_powr_iff[of a 2 k] assms unfolding k_def by simp
  then have "2 powr real_of_int k \<le> a" "a < 2 powr real_of_int (k + 1)"
    by simp_all
  then have b: "2 powi k \<le> a" "a < 2 powi (k + 1)"
    by (simp_all only: powr_real_of_int'[of 2, simplified])
  show ?thesis
  proof (cases "- 1022 \<le> k")
    case True
    from float64_exponent_binade[OF b True] True show ?thesis
      unfolding k_def by simp
  next
    case False
    then have "k + 1 \<le> - 1021" by simp
    then have "(2::real) powi (k + 1) \<le> 2 powi (- 1021)"
      by (intro power_int_increasing) simp_all
    with b(2) have "a < 2 powi (- 1021)" by simp
    moreover have "0 \<le> a" using assms by simp
    ultimately have "float64_exponent a = - 1022"
      by (intro float64_exponent_subnormal)
    with False show ?thesis unfolding k_def by simp
  qed
qed

text \<open>Evaluating the rounding of a concrete number, once its binade is known.\<close>

lemma is_float64_binade:
  assumes "2 powi k \<le> \<bar>x\<bar>" "\<bar>x\<bar> < 2 powi (k + 1)" "- 1022 \<le> k"
    "x / 2 powi (k - 52) = of_int m"
  shows "is_float64 x"
proof -
  have u0: "(2::real) powi (k - 52) \<noteq> 0" by simp
  have "float64_round x = 2 powi (k - 52) * of_int (round_half_even (of_int m))"
    using float64_round_binade[OF assms(1,2,3)] assms(4) by simp
  also have "\<dots> = 2 powi (k - 52) * (x / 2 powi (k - 52))"
    by (simp only: round_half_even_of_int assms(4))
  also have "\<dots> = x" using u0 by simp
  finally show ?thesis unfolding is_float64_def .
qed

lemma float64_add_exact: "is_float64 (x + y) \<Longrightarrow> float64_add x y = x + y"
  by (simp add: float64_add_def is_float64_def)

section \<open>The sampler returns the first exceeding index\<close>

lemma length_cumsum_acc: "length (cumsum_acc a xs) = length xs"
  by (induction xs arbitrary: a) simp_all

lemma length_cumsum: "length (cumsum xs) = length xs"
  by (cases xs) (simp_all add: length_cumsum_acc)

lemma argmax_acc_True: "argmax_acc True besti i ys = besti"
  by (induction ys arbitrary: i) simp_all

lemma argmax_acc_False:
  "argmax_acc False besti i ys =
     (if True \<in> set ys then i + length (takeWhile Not ys) else besti)"
proof (induction ys arbitrary: i)
  case Nil
  then show ?case by simp
next
  case (Cons y ys)
  show ?case
  proof (cases y)
    case True
    then show ?thesis by (simp add: argmax_acc_True)
  next
    case False
    then show ?thesis using Cons.IH[of "Suc i"] by simp
  qed
qed

lemma argmax_bool:
  "bs \<noteq> [] \<Longrightarrow> argmax bs = Inr (if True \<in> set bs then length (takeWhile Not bs) else 0)"
proof (cases bs)
  case Nil
  assume "bs \<noteq> []"
  with Nil show ?thesis by simp
next
  case (Cons b bs')
  show ?thesis
  proof (cases b)
    case True
    with Cons show ?thesis by (simp add: argmax_acc_True)
  next
    case False
    with Cons show ?thesis by (simp add: argmax_acc_False)
  qed
qed

lemma categorical_sample_eq:
  "prob_n \<noteq> [] \<Longrightarrow>
     categorical_sample prob_n draw =
       Inr (if \<exists>c \<in> set (cumsum prob_n). draw < c
            then length (takeWhile (\<lambda>c. \<not> draw < c) (cumsum prob_n)) else 0)"
proof -
  assume ne: "prob_n \<noteq> []"
  then have "map (\<lambda>c. draw < c) (cumsum prob_n) \<noteq> []"
    using length_cumsum[of prob_n] by (cases "cumsum prob_n") auto
  from argmax_bool[OF this]
  show ?thesis
    by (auto simp add: categorical_sample_def takeWhile_map comp_def)
qed

lemma length_takeWhile_lt:
  "\<exists>x \<in> set xs. \<not> Q x \<Longrightarrow> length (takeWhile Q xs) < length xs"
  by (induction xs) auto

lemma first_exceeding:
  assumes "\<exists>c \<in> set cs. draw < c"
  defines "k \<equiv> length (takeWhile (\<lambda>c. \<not> draw < c) cs)"
  shows "k < length cs \<and> draw < cs ! k \<and> (\<forall>j<k. \<not> draw < cs ! j)"
proof -
  have lt: "k < length cs"
    unfolding k_def using assms(1) by (intro length_takeWhile_lt) simp
  have "\<not> \<not> draw < cs ! k"
    using nth_length_takeWhile[of "\<lambda>c. \<not> draw < c" cs] lt unfolding k_def by blast
  moreover have "\<forall>j<k. \<not> draw < cs ! j"
  proof (intro allI impI)
    fix j assume "j < k"
    then have "j < length (takeWhile (\<lambda>c. \<not> draw < c) cs)" by (simp add: k_def)
    from takeWhile_nth[OF this] nth_mem[OF this] set_takeWhileD
    show "\<not> draw < cs ! j" by metis
  qed
  ultimately show ?thesis using lt by simp
qed

lemma categorical_sample_valid:
  assumes "prob_n \<noteq> []"
  shows "\<exists>i. categorical_sample prob_n draw = Inr i \<and> i < length prob_n \<and>
     ((\<exists>c \<in> set (cumsum prob_n). draw < c) \<longrightarrow>
        draw < cumsum prob_n ! i \<and> (\<forall>j<i. \<not> draw < cumsum prob_n ! j)) \<and>
     (\<not> (\<exists>c \<in> set (cumsum prob_n). draw < c) \<longrightarrow> i = 0)"
proof (cases "\<exists>c \<in> set (cumsum prob_n). draw < c")
  case True
  from first_exceeding[OF True] categorical_sample_eq[OF assms, of draw] True
  show ?thesis by (simp add: length_cumsum)
next
  case False
  with categorical_sample_eq[OF assms, of draw] assms show ?thesis by simp
qed

lemma cumsum_acc_nth_0: "xs \<noteq> [] \<Longrightarrow> cumsum_acc a xs ! 0 = float64_add a (xs ! 0)"
  by (cases xs) simp_all

lemma cumsum_acc_nth_Suc:
  "Suc k < length xs \<Longrightarrow>
     cumsum_acc a xs ! Suc k = float64_add (cumsum_acc a xs ! k) (xs ! Suc k)"
proof (induction xs arbitrary: a k)
  case Nil
  then show ?case by simp
next
  case (Cons x xs)
  show ?case
  proof (cases k)
    case 0
    with Cons.prems have "xs \<noteq> []" by auto
    with 0 show ?thesis by (simp add: cumsum_acc_nth_0)
  next
    case (Suc j)
    with Cons.prems have "Suc j < length xs" by simp
    from Cons.IH[OF this, of "float64_add a x"] Suc show ?thesis by simp
  qed
qed

lemma cumsum_nth_0: "p \<noteq> [] \<Longrightarrow> cumsum p ! 0 = p ! 0"
  by (cases p) simp_all

lemma cumsum_nth_Suc:
  "Suc k < length p \<Longrightarrow> cumsum p ! Suc k = float64_add (cumsum p ! k) (p ! Suc k)"
proof (cases p)
  case Nil
  assume "Suc k < length p"
  with Nil show ?thesis by simp
next
  case (Cons x xs)
  assume h: "Suc k < length p"
  show ?thesis
  proof (cases k)
    case 0
    with h Cons have "xs \<noteq> []" by auto
    with 0 Cons show ?thesis by (simp add: cumsum_acc_nth_0)
  next
    case (Suc j)
    with h Cons have "Suc j < length xs" by simp
    from cumsum_acc_nth_Suc[OF this, of x] Suc Cons show ?thesis by simp
  qed
qed

text \<open>
  Adding a number that is not negative to a double that is not negative never rounds
  below that double, so the cumulative sums of such numbers do not decrease.
\<close>

lemma float64_add_ge:
  assumes "is_float64 a" "0 \<le> a" "0 \<le> x"
  shows "a \<le> float64_add a x \<and> is_float64 (float64_add a x) \<and> 0 \<le> float64_add a x"
proof -
  have s: "0 \<le> a + x" "a \<le> a + x" using assms(2,3) by simp_all
  show ?thesis
    unfolding float64_add_def
    using float64_round_ge[OF assms(1,2) s(2)] float64_round_idem[OF s(1)]
      float64_round_nonneg[OF s(1)]
    by simp
qed

lemma cumsum_acc_sorted:
  assumes "is_float64 a" "0 \<le> a" "\<forall>x \<in> set xs. 0 \<le> x"
  shows "sorted (a # cumsum_acc a xs)"
  using assms
proof (induction xs arbitrary: a)
  case Nil
  then show ?case by simp
next
  case (Cons x xs)
  have x0: "0 \<le> x" and rest: "\<forall>y \<in> set xs. 0 \<le> y" using Cons.prems(3) by simp_all
  from float64_add_ge[OF Cons.prems(1,2) x0]
  have b: "a \<le> float64_add a x" "is_float64 (float64_add a x)" "0 \<le> float64_add a x"
    by simp_all
  from Cons.IH[OF b(2,3) rest]
  have "sorted (float64_add a x # cumsum_acc (float64_add a x) xs)" .
  with b(1) show ?case by (simp only: cumsum_acc.simps sorted2 simp_thms)
qed

lemma cumsum_sorted:
  assumes "\<forall>x \<in> set p. is_float64 x \<and> 0 \<le> x"
  shows "sorted (cumsum p)"
proof (cases p)
  case Nil
  then show ?thesis by simp
next
  case (Cons x xs)
  with assms have "is_float64 x" "0 \<le> x" "\<forall>y \<in> set xs. 0 \<le> y" by simp_all
  from cumsum_acc_sorted[OF this] Cons show ?thesis by simp
qed

section \<open>Concrete sums\<close>

lemma is_float64_half: "is_float64 (1 / 2)"
  by (rule is_float64_binade[where k = "- 1" and m = "2 ^ 52"]) simp_all

lemma is_float64_quarter: "is_float64 (1 / 4)"
  by (rule is_float64_binade[where k = "- 2" and m = "2 ^ 52"]) simp_all

lemma is_float64_three_quarters: "is_float64 (3 / 4)"
  by (rule is_float64_binade[where k = "- 1" and m = "3 * 2 ^ 51"]) simp_all

lemma is_float64_one: "is_float64 1"
  by (rule is_float64_binade[where k = 0 and m = "2 ^ 52"]) simp_all

lemma is_float64_below_one: "is_float64 (1 - 1 / 2 ^ 53)"
  by (rule is_float64_binade[where k = "- 1" and m = "2 ^ 53 - 1"]) simp_all

lemma is_float64_below_half: "is_float64 (1 / 2 - 1 / 2 ^ 53)"
  by (rule is_float64_binade[where k = "- 2" and m = "2 ^ 53 - 2"]) simp_all

lemma is_float64_tiny: "is_float64 (1 / 2 ^ 55)"
  by (rule is_float64_binade[where k = "- 55" and m = "2 ^ 52"]) simp_all

lemma add_half_quarter: "float64_add (1 / 2) (1 / 4) = 3 / 4"
  using float64_add_exact[of "1 / 2" "1 / 4"] is_float64_three_quarters by simp

lemma add_three_quarters_quarter: "float64_add (3 / 4) (1 / 4) = 1"
  using float64_add_exact[of "3 / 4" "1 / 4"] is_float64_one by simp

lemma add_half_below_half: "float64_add (1 / 2) (1 / 2 - 1 / 2 ^ 53) = 1 - 1 / 2 ^ 53"
  using float64_add_exact[of "1 / 2" "1 / 2 - 1 / 2 ^ 53"] is_float64_below_one by simp

text \<open>A sum that is rounded: a quarter of the spacing below \<open>1\<close> is lost.\<close>

lemma add_below_one_tiny: "float64_add (1 - 1 / 2 ^ 53) (1 / 2 ^ 55) = 1 - 1 / 2 ^ 53"
  unfolding float64_add_def
  by (subst float64_round_binade[where k = "- 1"]) (simp_all add: round_half_even_def)

section \<open>Inverse sampling on the computed cumulative sums\<close>

text \<open>
  Claim C9, on the cumulative sums as \<^verbatim>\<open>np.cumsum\<close> computes them. For every vector
  \<open>p\<close> whose computed cumulative sum ends at \<open>1\<close> and every draw in \<open>[0, 1)\<close> the
  sampler returns an index \<open>i\<close> of \<open>p\<close>: the smallest one whose computed cumulative
  sum \<open>cs[i]\<close> exceeds the draw, so that \<open>cs[i-1] \<le> draw < cs[i]\<close> with \<open>cs[-1] = 0\<close>,
  where \<open>cs[0] = p[0]\<close> and \<open>cs[k+1]\<close> is the rounded sum of \<open>cs[k]\<close> and
  \<open>p[k+1]\<close>; when the entries of \<open>p\<close> are doubles that are not negative, it is the
  only index with that property.
\<close>

theorem categorical_sample_inverse_cdf:
  assumes "p \<noteq> []" "last (cumsum p) = 1" "0 \<le> draw" "draw < 1"
  shows "\<exists>i. categorical_sample p draw = Inr i \<and> i < length p \<and>
        draw < cumsum p ! i \<and> (\<forall>j<i. \<not> draw < cumsum p ! j) \<and>
        (if i = 0 then 0 else cumsum p ! (i - 1)) \<le> draw \<and>
        ((\<forall>x \<in> set p. is_float64 x \<and> 0 \<le> x) \<longrightarrow>
           (\<forall>k<length p.
              (if k = 0 then 0 else cumsum p ! (k - 1)) \<le> draw \<and> draw < cumsum p ! k
                \<longrightarrow> k = i)) \<and>
        cumsum p ! 0 = p ! 0 \<and>
        (\<forall>k. Suc k < length p \<longrightarrow>
           cumsum p ! Suc k = float64_add (cumsum p ! k) (p ! Suc k))"
proof -
  have ne: "cumsum p \<noteq> []"
    using assms(1) length_cumsum[of p] by (cases "cumsum p") auto
  then have "last (cumsum p) \<in> set (cumsum p)" by (rule last_in_set)
  moreover have "draw < last (cumsum p)" using assms(2,4) by simp
  ultimately have ex: "\<exists>c \<in> set (cumsum p). draw < c" by blast
  from categorical_sample_valid[OF assms(1), of draw] ex
  obtain i where i: "categorical_sample p draw = Inr i" "i < length p"
    "draw < cumsum p ! i" "\<forall>j<i. \<not> draw < cumsum p ! j" by blast
  have prev: "(if i = 0 then 0 else cumsum p ! (i - 1)) \<le> draw"
    using i(4) assms(3) by (cases i) (auto simp add: not_less)
  have uniq: "k = i"
    if nn: "\<forall>x \<in> set p. is_float64 x \<and> 0 \<le> x" and k: "k < length p"
      "(if k = 0 then 0 else cumsum p ! (k - 1)) \<le> draw" "draw < cumsum p ! k" for k
  proof (rule ccontr)
    assume "k \<noteq> i"
    then consider "k < i" | "i < k" by linarith
    then show False
    proof cases
      case 1
      with i(4) k(3) show False by blast
    next
      case 2
      then have "i \<le> k - 1" "k - 1 < length (cumsum p)" "k \<noteq> 0"
        using k(1) by (simp_all add: length_cumsum)
      with sorted_nth_mono[OF cumsum_sorted[OF nn], of i "k - 1"] k(2) i(3)
      show False by simp
    qed
  qed
  have u: "(\<forall>x \<in> set p. is_float64 x \<and> 0 \<le> x) \<longrightarrow>
           (\<forall>k<length p.
              (if k = 0 then 0 else cumsum p ! (k - 1)) \<le> draw \<and> draw < cumsum p ! k
                \<longrightarrow> k = i)"
    using uniq by blast
  have c0: "cumsum p ! 0 = p ! 0"
    using assms(1) by (rule cumsum_nth_0)
  have cS: "\<forall>k. Suc k < length p \<longrightarrow>
           cumsum p ! Suc k = float64_add (cumsum p ! k) (p ! Suc k)"
    by (simp add: cumsum_nth_Suc)
  from i prev u c0 cS show ?thesis by blast
qed

text \<open>
  The witness: \<open>p = [1/2, 1/4, 1/4]\<close> has the cumulative sums \<open>1/2, 3/4, 1\<close>, all of
  them exact; the draw \<open>1/2\<close> is not below \<open>cs[0]\<close> but below \<open>cs[1]\<close>, so the sample
  is \<open>1\<close>.
\<close>

theorem categorical_sample_inverse_cdf_witness:
  "[1 / 2, 1 / 4, 1 / 4 :: real] \<noteq> [] \<and> last (cumsum [1 / 2, 1 / 4, 1 / 4]) = 1 \<and>
   (0::real) \<le> 1 / 2 \<and> (1 / 2 :: real) < 1 \<and>
   categorical_sample [1 / 2, 1 / 4, 1 / 4] (1 / 2) = Inr 1"
proof -
  have "cumsum [1 / 2, 1 / 4, 1 / 4] =
      [1 / 2, float64_add (1 / 2) (1 / 4), float64_add (float64_add (1 / 2) (1 / 4)) (1 / 4)]"
    by (simp only: cumsum.simps cumsum_acc.simps)
  also have "\<dots> = [1 / 2, 3 / 4, float64_add (3 / 4) (1 / 4)]"
    by (simp only: add_half_quarter)
  also have "\<dots> = [1 / 2, 3 / 4, 1]"
    by (simp only: add_three_quarters_quarter)
  finally have cs: "cumsum [1 / 2, 1 / 4, 1 / 4] = [1 / 2, 3 / 4, 1]" .
  have h1: "[1 / 2, 1 / 4, 1 / 4 :: real] \<noteq> []" by simp
  have h2: "last (cumsum [1 / 2, 1 / 4, 1 / 4]) = 1" unfolding cs by simp
  have h3: "(0::real) \<le> 1 / 2" and h4: "(1 / 2 :: real) < 1" by simp_all
  have nn: "\<forall>x \<in> set [1 / 2, 1 / 4, 1 / 4 :: real]. is_float64 x \<and> 0 \<le> x"
    by (simp add: is_float64_half is_float64_quarter)
  from categorical_sample_inverse_cdf[OF h1 h2 h3 h4]
  obtain i where i: "categorical_sample [1 / 2, 1 / 4, 1 / 4] (1 / 2) = Inr i"
    and u: "(\<forall>x \<in> set [1 / 2, 1 / 4, 1 / 4 :: real]. is_float64 x \<and> 0 \<le> x) \<longrightarrow>
           (\<forall>k<length [1 / 2, 1 / 4, 1 / 4 :: real].
              (if k = 0 then 0 else cumsum [1 / 2, 1 / 4, 1 / 4] ! (k - 1)) \<le> 1 / 2 \<and>
              1 / 2 < cumsum [1 / 2, 1 / 4, 1 / 4] ! k
                \<longrightarrow> k = i)"
    by blast
  have c: "Suc 0 < length [1 / 2, 1 / 4, 1 / 4 :: real]"
    "(if Suc 0 = 0 then 0 else cumsum [1 / 2, 1 / 4, 1 / 4] ! (Suc 0 - 1)) \<le> 1 / 2"
    "1 / 2 < cumsum [1 / 2, 1 / 4, 1 / 4] ! Suc 0"
    unfolding cs by simp_all
  from u nn c have "Suc 0 = i" by blast
  with i h1 h2 h3 h4 show ?thesis by simp
qed

text \<open>
  With the exact sum in place of the computed one the claim fails. The five doubles
  \<open>1 - 2\<^sup>-\<^sup>5\<^sup>3, 2\<^sup>-\<^sup>5\<^sup>5, 2\<^sup>-\<^sup>5\<^sup>5, 2\<^sup>-\<^sup>5\<^sup>5, 2\<^sup>-\<^sup>5\<^sup>5\<close> are not negative and add up to exactly
  \<open>1\<close>, but every rounded partial sum stays at \<open>1 - 2\<^sup>-\<^sup>5\<^sup>3\<close>. For the draw
  \<open>1 - 2\<^sup>-\<^sup>5\<^sup>3\<close> no cumulative sum exceeds the draw, and the sampler returns \<open>0\<close>,
  where \<open>cs[0]\<close> equals the draw.
\<close>

theorem categorical_sample_exact_sum_one:
  "sum_list [1 - 1 / 2 ^ 53, 1 / 2 ^ 55, 1 / 2 ^ 55, 1 / 2 ^ 55, 1 / 2 ^ 55 :: real] = 1 \<and>
   list_all (\<lambda>x. is_float64 x \<and> 0 \<le> x)
     [1 - 1 / 2 ^ 53, 1 / 2 ^ 55, 1 / 2 ^ 55, 1 / 2 ^ 55, 1 / 2 ^ 55] \<and>
   (0::real) \<le> 1 - 1 / 2 ^ 53 \<and> (1 - 1 / 2 ^ 53 :: real) < 1 \<and>
   categorical_sample [1 - 1 / 2 ^ 53, 1 / 2 ^ 55, 1 / 2 ^ 55, 1 / 2 ^ 55, 1 / 2 ^ 55]
     (1 - 1 / 2 ^ 53) = Inr 0 \<and>
   \<not> 1 - 1 / 2 ^ 53 <
     cumsum [1 - 1 / 2 ^ 53, 1 / 2 ^ 55, 1 / 2 ^ 55, 1 / 2 ^ 55, 1 / 2 ^ 55] ! 0"
proof -
  have cs: "cumsum [1 - 1 / 2 ^ 53, 1 / 2 ^ 55, 1 / 2 ^ 55, 1 / 2 ^ 55, 1 / 2 ^ 55] =
      [1 - 1 / 2 ^ 53, 1 - 1 / 2 ^ 53, 1 - 1 / 2 ^ 53, 1 - 1 / 2 ^ 53, 1 - 1 / 2 ^ 53]"
    by (simp only: cumsum.simps cumsum_acc.simps add_below_one_tiny)
  have s: "sum_list [1 - 1 / 2 ^ 53, 1 / 2 ^ 55, 1 / 2 ^ 55, 1 / 2 ^ 55, 1 / 2 ^ 55 :: real] = 1"
    by simp
  have d: "list_all (\<lambda>x. is_float64 x \<and> 0 \<le> x)
     [1 - 1 / 2 ^ 53, 1 / 2 ^ 55, 1 / 2 ^ 55, 1 / 2 ^ 55, 1 / 2 ^ 55]"
    using is_float64_below_one is_float64_tiny by simp
  have r: "(0::real) \<le> 1 - 1 / 2 ^ 53" "(1 - 1 / 2 ^ 53 :: real) < 1" by simp_all
  have smp: "categorical_sample [1 - 1 / 2 ^ 53, 1 / 2 ^ 55, 1 / 2 ^ 55, 1 / 2 ^ 55, 1 / 2 ^ 55]
     (1 - 1 / 2 ^ 53) = Inr 0"
    unfolding categorical_sample_def Let_def cs by simp
  have n0: "\<not> 1 - 1 / 2 ^ 53 <
     cumsum [1 - 1 / 2 ^ 53, 1 / 2 ^ 55, 1 / 2 ^ 55, 1 / 2 ^ 55, 1 / 2 ^ 55] ! 0"
    unfolding cs by simp
  from s d r smp n0 show ?thesis by blast
qed

section \<open>Vectors that sum to less than one\<close>

text \<open>
  Claim C2, as the code behaves. For every vector that is not empty and every draw the
  sampler returns an index of the vector without raising. When no computed cumulative
  sum exceeds the draw, the comparison array is all false and \<open>argmax\<close> returns the
  first index \<open>0\<close>, not the last one.
\<close>

theorem categorical_sample_short_sum:
  fixes p :: "real list"
  assumes "p \<noteq> []"
  shows "\<exists>i. categorical_sample p draw = Inr i \<and> i < length p \<and>
     ((\<forall>c \<in> set (cumsum p). c \<le> draw) \<longrightarrow> i = 0)"
proof -
  from categorical_sample_valid[OF assms, of draw]
  obtain i where i: "categorical_sample p draw = Inr i" "i < length p"
    "\<not> (\<exists>c \<in> set (cumsum p). draw < c) \<longrightarrow> i = 0" by blast
  have a: "(\<forall>c \<in> set (cumsum p). c \<le> draw) \<longrightarrow> i = 0"
    using i(3) by (auto simp add: not_less)
  from i(1,2) a show ?thesis by blast
qed

theorem categorical_sample_short_sum_witness:
  "[1 / 2, 1 / 4 :: real] \<noteq> [] \<and> cumsum [1 / 2, 1 / 4] = [1 / 2, 3 / 4] \<and>
   categorical_sample [1 / 2, 1 / 4] (7 / 8) = Inr 0"
proof -
  have h: "[1 / 2, 1 / 4 :: real] \<noteq> []" by simp
  have cs: "cumsum [1 / 2, 1 / 4] = [1 / 2, 3 / 4]"
    by (simp only: cumsum.simps cumsum_acc.simps add_half_quarter)
  have le: "\<forall>c \<in> set (cumsum [1 / 2, 1 / 4]). c \<le> 7 / 8"
    unfolding cs by simp
  from categorical_sample_short_sum[OF h, of "7 / 8"]
  obtain i where i: "categorical_sample [1 / 2, 1 / 4] (7 / 8) = Inr i"
    and z: "(\<forall>c \<in> set (cumsum [1 / 2, 1 / 4]). c \<le> 7 / 8) \<longrightarrow> i = 0"
    by blast
  from z le have "i = 0" by blast
  with i h cs show ?thesis by blast
qed

text \<open>
  The counterexample: \<open>1/2\<close> and \<open>1/2 - 2\<^sup>-\<^sup>5\<^sup>3\<close> are doubles, their sum
  \<open>1 - 2\<^sup>-\<^sup>5\<^sup>3\<close> is the largest double below \<open>1\<close>, and it is also the largest value
  \<^verbatim>\<open>rand()\<close> returns. No cumulative sum exceeds that draw, and the sampler returns
  index \<open>0\<close>, not the last index \<open>1\<close>.
\<close>

theorem categorical_sample_not_last:
  "sum_list [1 / 2, 1 / 2 - 1 / 2 ^ 53 :: real] < 1 \<and>
   (0 :: real) \<le> 1 - 1 / 2 ^ 53 \<and> (1 - 1 / 2 ^ 53 :: real) < 1 \<and>
   categorical_sample [1 / 2, 1 / 2 - 1 / 2 ^ 53] (1 - 1 / 2 ^ 53 :: real) = Inr 0 \<and>
   categorical_sample [1 / 2, 1 / 2 - 1 / 2 ^ 53] (1 - 1 / 2 ^ 53 :: real) \<noteq>
     Inr (length [1 / 2, 1 / 2 - 1 / 2 ^ 53 :: real] - 1)"
proof -
  have cs: "cumsum [1 / 2, 1 / 2 - 1 / 2 ^ 53] = [1 / 2, 1 - 1 / 2 ^ 53]"
    by (simp only: cumsum.simps cumsum_acc.simps add_half_below_half)
  have smp: "categorical_sample [1 / 2, 1 / 2 - 1 / 2 ^ 53] (1 - 1 / 2 ^ 53) = Inr 0"
    unfolding categorical_sample_def Let_def cs by simp
  have s: "sum_list [1 / 2, 1 / 2 - 1 / 2 ^ 53 :: real] < 1"
    "(0 :: real) \<le> 1 - 1 / 2 ^ 53" "(1 - 1 / 2 ^ 53 :: real) < 1"
    by simp_all
  have l: "Inr 0 \<noteq> (Inr (length [1 / 2, 1 / 2 - 1 / 2 ^ 53 :: real] - 1) :: error + nat)"
    by simp
  from s smp l show ?thesis by (simp only: simp_thms)
qed

section \<open>Sums that round\<close>

text \<open>
  Two vectors on which the rounding of \<^verbatim>\<open>np.cumsum\<close> decides the sample. In the first
  the sum \<open>2\<^sup>-\<^sup>5\<^sup>4 + 1/2\<close> lies halfway between two doubles and rounds to the even
  one, \<open>1/2\<close>, which the draw \<open>1/2\<close> does not fall below: the sample is \<open>2\<close>, where
  exact sums would give \<open>1\<close>. In the second the exact sum of the vector equals the
  draw, but the rounded sums pass it at the last index.
\<close>

lemma add_tie_down: "float64_add (1 / 2 ^ 54) (1 / 2) = 1 / 2"
  unfolding float64_add_def
  by (subst float64_round_binade[where k = "- 1"]) (simp_all add: round_half_even_def)

lemma add_tie_up: "float64_add (1 / 2) (1 / 2 - 1 / 2 ^ 54) = 1"
  unfolding float64_add_def
  by (subst float64_round_binade[where k = "- 1"]) (simp_all add: round_half_even_def)

lemma categorical_sample_rounds_tie:
  "categorical_sample [1 / 2 ^ 54, 1 / 2, 1 / 2 - 1 / 2 ^ 54] (1 / 2) = Inr 2"
proof -
  have "cumsum [1 / 2 ^ 54, 1 / 2, 1 / 2 - 1 / 2 ^ 54] =
      [1 / 2 ^ 54, float64_add (1 / 2 ^ 54) (1 / 2),
       float64_add (float64_add (1 / 2 ^ 54) (1 / 2)) (1 / 2 - 1 / 2 ^ 54)]"
    by (simp only: cumsum.simps cumsum_acc.simps)
  also have "\<dots> = [1 / 2 ^ 54, 1 / 2, float64_add (1 / 2) (1 / 2 - 1 / 2 ^ 54)]"
    by (simp only: add_tie_down)
  also have "\<dots> = [1 / 2 ^ 54, 1 / 2, 1]"
    by (simp only: add_tie_up)
  finally have cs: "cumsum [1 / 2 ^ 54, 1 / 2, 1 / 2 - 1 / 2 ^ 54] = [1 / 2 ^ 54, 1 / 2, 1]" .
  show ?thesis
    unfolding categorical_sample_def Let_def cs by simp
qed

lemma add_r7_1: "float64_add (3 / 4 + 1 / 2 ^ 53) (1 / 2 ^ 54) = 3 / 4 + 1 / 2 ^ 52"
  unfolding float64_add_def
  by (subst float64_round_binade[where k = "- 1"]) (simp_all add: round_half_even_def)

lemma add_r7_2: "float64_add (3 / 4 + 1 / 2 ^ 52) (3 / 2 ^ 55) = 3 / 4 + 3 / 2 ^ 53"
  unfolding float64_add_def
  by (subst float64_round_binade[where k = "- 1"]) (simp_all add: round_half_even_def)

lemma add_r7_3: "float64_add (3 / 4 + 3 / 2 ^ 53) (3 / 2 ^ 55) = 3 / 4 + 1 / 2 ^ 51"
  unfolding float64_add_def
  by (subst float64_round_binade[where k = "- 1"]) (simp_all add: round_half_even_def)

lemma categorical_sample_rounds_up:
  "sum_list [3 / 4 + 1 / 2 ^ 53, 1 / 2 ^ 54, 3 / 2 ^ 55, 3 / 2 ^ 55 :: real] = 3 / 4 + 3 / 2 ^ 53 \<and>
   categorical_sample [3 / 4 + 1 / 2 ^ 53, 1 / 2 ^ 54, 3 / 2 ^ 55, 3 / 2 ^ 55]
     (3 / 4 + 3 / 2 ^ 53) = Inr 3"
proof -
  have "cumsum [3 / 4 + 1 / 2 ^ 53, 1 / 2 ^ 54, 3 / 2 ^ 55, 3 / 2 ^ 55] =
      [3 / 4 + 1 / 2 ^ 53, float64_add (3 / 4 + 1 / 2 ^ 53) (1 / 2 ^ 54),
       float64_add (float64_add (3 / 4 + 1 / 2 ^ 53) (1 / 2 ^ 54)) (3 / 2 ^ 55),
       float64_add (float64_add (float64_add (3 / 4 + 1 / 2 ^ 53) (1 / 2 ^ 54)) (3 / 2 ^ 55))
         (3 / 2 ^ 55)]"
    by (simp only: cumsum.simps cumsum_acc.simps)
  also have "\<dots> = [3 / 4 + 1 / 2 ^ 53, 3 / 4 + 1 / 2 ^ 52,
       float64_add (3 / 4 + 1 / 2 ^ 52) (3 / 2 ^ 55),
       float64_add (float64_add (3 / 4 + 1 / 2 ^ 52) (3 / 2 ^ 55)) (3 / 2 ^ 55)]"
    by (simp only: add_r7_1)
  also have "\<dots> = [3 / 4 + 1 / 2 ^ 53, 3 / 4 + 1 / 2 ^ 52, 3 / 4 + 3 / 2 ^ 53,
       float64_add (3 / 4 + 3 / 2 ^ 53) (3 / 2 ^ 55)]"
    by (simp only: add_r7_2)
  also have "\<dots> = [3 / 4 + 1 / 2 ^ 53, 3 / 4 + 1 / 2 ^ 52, 3 / 4 + 3 / 2 ^ 53,
       3 / 4 + 1 / 2 ^ 51]"
    by (simp only: add_r7_3)
  finally have cs: "cumsum [3 / 4 + 1 / 2 ^ 53, 1 / 2 ^ 54, 3 / 2 ^ 55, 3 / 2 ^ 55] =
      [3 / 4 + 1 / 2 ^ 53, 3 / 4 + 1 / 2 ^ 52, 3 / 4 + 3 / 2 ^ 53, 3 / 4 + 1 / 2 ^ 51]" .
  have smp: "categorical_sample [3 / 4 + 1 / 2 ^ 53, 1 / 2 ^ 54, 3 / 2 ^ 55, 3 / 2 ^ 55]
     (3 / 4 + 3 / 2 ^ 53) = Inr 3"
    unfolding categorical_sample_def Let_def cs by simp
  have s: "sum_list [3 / 4 + 1 / 2 ^ 53, 1 / 2 ^ 54, 3 / 2 ^ 55, 3 / 2 ^ 55 :: real] =
      3 / 4 + 3 / 2 ^ 53"
    by simp
  from s smp show ?thesis by (simp only: simp_thms)
qed

section \<open>The table-driven step\<close>

lemma step_lookup:
  assumes "P env (s env) = Some row" "row a = Some transitions"
    "categorical_sample (map fst transitions) draw = Inr i" "transitions ! i = (p, s', r, d)"
  shows "i < length transitions \<and>
    DiscreteEnv_step env a draw =
      Inr (env\<lparr>s := s', lastaction := Some a\<rparr>, (s', r, d, Some [(''prob'', p)]))"
proof -
  have ne: "map fst transitions \<noteq> []"
    using assms(3) by (auto simp add: categorical_sample_def)
  from categorical_sample_valid[OF ne, of draw] assms(3)
  have lt: "i < length transitions" by auto
  then show ?thesis using assms by (simp add: DiscreteEnv_step_def)
qed

lemma sample_certain: "draw < (1::real) \<Longrightarrow> categorical_sample (1 # zs) draw = Inr 0"
  by (simp add: categorical_sample_def argmax_acc_True)

text \<open>
  Claim C8. \<open>step(action)\<close> looks up the transition list of the current state and the
  action, samples an index \<open>i\<close> over the list's probabilities, sets the current state
  to the next state of entry \<open>i\<close> and \<open>lastaction\<close> to the action, and returns the
  entry's next state, reward and done flag with the dictionary \<^verbatim>\<open>{"prob": p}\<close> of its
  probability; the sampled index is always inside the list. \<open>reset()\<close> samples the
  state from \<open>isd\<close>. For the two-state environment \<open>engine2\<close>, whatever the draws in
  \<open>[0, 1)\<close>, the constructor yields state \<open>0\<close>, \<open>reset()\<close> returns \<open>0\<close> and
  \<open>step(0)\<close> returns \<open>(1, 5.0, True, {"prob": 1.0})\<close>.
\<close>

theorem DiscreteEnv_step_samples:
  "(P env (s env) = Some row \<and> row a = Some transitions \<and>
    categorical_sample (map fst transitions) draw = Inr i \<and> transitions ! i = (p, s', r, d) \<longrightarrow>
      i < length transitions \<and>
      DiscreteEnv_step env a draw =
        Inr (env\<lparr>s := s', lastaction := Some a\<rparr>, (s', r, d, Some [(''prob'', p)]))) \<and>
   (categorical_sample (isd env) draw = Inr i \<longrightarrow>
      DiscreteEnv_reset env draw = Inr (env\<lparr>s := int i, lastaction := None\<rparr>, int i)) \<and>
   (draw0 < 1 \<and> draw1 < 1 \<and> draw2 < 1 \<longrightarrow>
      DiscreteEnv_init 2 1 [0 \<mapsto> [0 \<mapsto> [(1, 1, 5, True)]], 1 \<mapsto> [0 \<mapsto> [(1, 1, 0, True)]]] [1, 0] draw0 =
        Inr engine2 \<and>
      DiscreteEnv_reset engine2 draw1 = Inr (engine2, 0) \<and>
      DiscreteEnv_step engine2 0 draw2 =
        Inr (engine2\<lparr>s := 1, lastaction := Some 0\<rparr>, (1, 5, True, Some [(''prob'', 1)])))"
proof (intro conjI impI)
  assume "P env (s env) = Some row \<and> row a = Some transitions \<and>
    categorical_sample (map fst transitions) draw = Inr i \<and> transitions ! i = (p, s', r, d)"
  then show "i < length transitions"
    and "DiscreteEnv_step env a draw =
        Inr (env\<lparr>s := s', lastaction := Some a\<rparr>, (s', r, d, Some [(''prob'', p)]))"
    using step_lookup[of env row a transitions draw i p s' r d] by simp_all
next
  assume "categorical_sample (isd env) draw = Inr i"
  then show "DiscreteEnv_reset env draw = Inr (env\<lparr>s := int i, lastaction := None\<rparr>, int i)"
    by (simp add: DiscreteEnv_reset_def)
next
  assume "draw0 < 1 \<and> draw1 < 1 \<and> draw2 < 1"
  then show "DiscreteEnv_init 2 1 [0 \<mapsto> [0 \<mapsto> [(1, 1, 5, True)]], 1 \<mapsto> [0 \<mapsto> [(1, 1, 0, True)]]] [1, 0] draw0 =
        Inr engine2"
    and "DiscreteEnv_reset engine2 draw1 = Inr (engine2, 0)"
    and "DiscreteEnv_step engine2 0 draw2 =
        Inr (engine2\<lparr>s := 1, lastaction := Some 0\<rparr>, (1, 5, True, Some [(''prob'', 1)]))"
    by (simp_all add: DiscreteEnv_init_def DiscreteEnv_reset_def DiscreteEnv_step_def
          sample_certain engine2_def)
qed

theorem DiscreteEnv_step_samples_witness:
  "P engine2 (s engine2) = Some [0 \<mapsto> [(1, 1, 5, True)]] \<and>
   categorical_sample (map fst [(1, 1, 5, True) :: transition]) (1 / 2) = Inr 0 \<and>
   categorical_sample (isd engine2) (1 / 2) = Inr 0 \<and>
   (1 / 2 :: real) < 1 \<and>
   DiscreteEnv_init 2 1 [0 \<mapsto> [0 \<mapsto> [(1, 1, 5, True)]], 1 \<mapsto> [0 \<mapsto> [(1, 1, 0, True)]]] [1, 0] (1 / 2) =
     Inr engine2 \<and>
   DiscreteEnv_reset engine2 (1 / 2) = Inr (engine2\<lparr>s := int 0, lastaction := None\<rparr>, int 0) \<and>
   DiscreteEnv_reset engine2 (1 / 2) = Inr (engine2, 0) \<and>
   DiscreteEnv_step engine2 0 (1 / 2) =
     Inr (engine2\<lparr>s := 1, lastaction := Some 0\<rparr>, (1, 5, True, Some [(''prob'', 1)]))"
proof -
  have h: "(1 / 2 :: real) < 1" by simp
  have g1: "P engine2 (s engine2) = Some [0 \<mapsto> [(1, 1, 5, True)]]"
    by (simp add: engine2_def)
  have g2: "[(0::int) \<mapsto> [(1, 1, 5, True) :: transition]] 0 = Some [(1, 1, 5, True)]"
    by simp
  have g3: "categorical_sample (map fst [(1, 1, 5, True) :: transition]) (1 / 2) = Inr 0"
    by (simp add: sample_certain)
  have g4: "[(1, 1, 5, True) :: transition] ! 0 = (1, 1, 5, True)"
    by simp
  have g5: "categorical_sample (isd engine2) (1 / 2) = Inr 0"
    by (simp add: engine2_def sample_certain)
  note t = DiscreteEnv_step_samples
    [of engine2 "[0 \<mapsto> [(1, 1, 5, True)]]" 0 "[(1, 1, 5, True)]" "1 / 2" 0 1 1 5 True
        "1 / 2" "1 / 2" "1 / 2"]
  from t h g1 g2 g3 g4 g5 show ?thesis by blast
qed

end
